theory Spec2Isabelle
  imports Main "HOL-Library.AList"
begin

section \<open>Values, objects and job descriptors\<close>

text \<open>
  The scheduler is JavaScript: a schedule field of a job may hold a value of any type,
  and the code tests it with truthiness and \<^verbatim>\<open>typeof\<close>. Numbers are modelled as
  integers (milliseconds), a \<^verbatim>\<open>Date\<close> by its epoch milliseconds.
\<close>

datatype jsval =
    JUndefined
  | JNull
  | JBool bool
  | JNum int
  | JStr string
  | JDate int

fun truthy :: "jsval \<Rightarrow> bool" where
  "truthy JUndefined = False"
| "truthy JNull = False"
| "truthy (JBool b) = b"
| "truthy (JNum n) = (n \<noteq> 0)"
| "truthy (JStr s) = (s \<noteq> [])"
| "truthy (JDate d) = True"

text \<open>
  A plain object is an association list in property order. Assigning a property keeps
  the position of a key that is already there and appends a new key, which is what
  \<^const>\<open>AList.update\<close> does. An object spread copies the properties of the source,
  in order, onto what has been built so far.
\<close>

type_synonym obj = "(string \<times> jsval) list"

definition spread :: "obj \<Rightarrow> obj \<Rightarrow> obj" where
  "spread acc src = fold (\<lambda>(k, v). AList.update k v) src acc"

text \<open>The normalised job object that \<^verbatim>\<open>addJobDefinition\<close> stores in the registry.\<close>

record job =
  name :: string
  friendlyName :: jsval
  description :: jsval
  interval :: jsval
  timeout :: jsval
  cron :: jsval
  cronValidate :: jsval
  date :: jsval
  inputs :: obj
  scriptInputs :: obj
  paused :: bool
  withoutOverlapping :: bool

text \<open>
  A job definition as it is written in \<^verbatim>\<open>config/quest.js\<close> or in the \<^verbatim>\<open>quest\<close>
  property of a script: every property may be missing (\<open>None\<close>, \<^const>\<open>JUndefined\<close>).
  An entry of \<^verbatim>\<open>config.jobs\<close> is a definition or just a name. A script module carries
  its input schema, here the \<^verbatim>\<open>defaultsTo\<close> of each input (\<^const>\<open>JUndefined\<close> when
  the input has none), and possibly a \<^verbatim>\<open>quest\<close> definition.
\<close>

record jobDef =
  d_name :: "string option"
  d_friendlyName :: jsval
  d_description :: jsval
  d_interval :: jsval
  d_timeout :: jsval
  d_cron :: jsval
  d_cronValidate :: jsval
  d_date :: jsval
  d_inputs :: "obj option"
  d_scriptInputs :: "obj option"
  d_withoutOverlapping :: "bool option"

datatype config_entry = ByName string | ByDef jobDef

record scriptDef =
  sd_friendlyName :: jsval
  sd_description :: jsval
  sd_inputs :: obj
  sd_quest :: "jobDef option"

section \<open>The environment: libraries, file system, configuration\<close>

text \<open>
  The third-party parsers (cron-parser, later.js, human-interval), \<^verbatim>\<open>JSON.stringify\<close>,
  the \<^verbatim>\<open>Date\<close> constructor on text and the script directory are not part of the
  repository. They are parameters of the model:
  \<^item> \<open>cron_next expr tz now\<close> is \<^verbatim>\<open>CronExpressionParser.parse(expr, {tz}).next().toDate()\<close>,
    \<open>None\<close> when the library throws;
  \<^item> \<open>later_next text now\<close> is the outcome of the \<^verbatim>\<open>try\<close> block around later.js
    in \<^verbatim>\<open>parseInterval\<close>: \<open>None\<close> when the block returns nothing and the next
    parser is tried;
  \<^item> \<open>later_at text now\<close> is the outcome of the corresponding block in
    \<^verbatim>\<open>parseTimeout\<close>: \<open>None\<close> when the next parser is tried, \<open>Some r\<close> when the
    block returns \<open>r\<close> (which may itself be nothing);
  \<^item> \<open>human_interval text\<close> is \<^verbatim>\<open>humanInterval(text)\<close>, \<open>None\<close> when it throws or
    returns \<^verbatim>\<open>undefined\<close> or \<^verbatim>\<open>NaN\<close>;
  \<^item> \<open>date_parse text\<close> is \<^verbatim>\<open>new Date(text).getTime()\<close>, \<open>None\<close> for an invalid date;
  \<^item> \<open>json_throws v\<close> holds when \<^verbatim>\<open>JSON.stringify\<close> throws on the value;
  \<^item> \<open>start_listener_throws n inps\<close> holds when emitting \<^verbatim>\<open>quest:job:start\<close> for the
    job and its inputs throws, which it does when a listener throws (it is false when
    there is no \<^verbatim>\<open>sails\<close> object, since nothing is emitted then);
  \<^item> \<open>spawn_throws n args\<close> holds when \<^verbatim>\<open>spawn\<close> throws in the caller instead of
    reporting the failure through the \<^verbatim>\<open>error\<close> event of the child;
  \<^item> \<open>script_exists n\<close> is \<^verbatim>\<open>fs.existsSync\<close> on the script file of \<open>n\<close>;
  \<^item> \<open>scripts\<close> is what \<^verbatim>\<open>includeAll\<close> loads from the script directory, by file name,
    empty when there is no such directory.
  The fields \<open>cfg_\<close> are the properties of \<^verbatim>\<open>sails.config.quest\<close>.
\<close>

record env =
  cron_next :: "string \<Rightarrow> string option \<Rightarrow> int \<Rightarrow> int option"
  later_next :: "string \<Rightarrow> int \<Rightarrow> int option"
  later_at :: "string \<Rightarrow> int \<Rightarrow> int option option"
  human_interval :: "string \<Rightarrow> int option"
  date_parse :: "string \<Rightarrow> int option"
  json_stringify :: "jsval \<Rightarrow> string"
  json_throws :: "jsval \<Rightarrow> bool"
  start_listener_throws :: "string \<Rightarrow> obj \<Rightarrow> bool"
  spawn_throws :: "string \<Rightarrow> string list \<Rightarrow> bool"
  script_exists :: "string \<Rightarrow> bool"
  scripts :: "(string \<times> scriptDef) list"
  cfg_jobs :: "config_entry list"
  cfg_timezone :: "string option"
  cfg_withoutOverlapping :: "bool option"

section \<open>The scheduler state\<close>

text \<open>
  The hook keeps three tables (\<^verbatim>\<open>jobs\<close>, \<^verbatim>\<open>timers\<close>, \<^verbatim>\<open>running\<close>), each a
  JavaScript \<^verbatim>\<open>Map\<close>, modelled as association lists in insertion order. The
  platform's timer queue is \<open>pending\<close>: the timers that have been set and have neither
  fired nor been cleared, each with its due instant and its callback. A timer handle is
  a number. \<open>clock\<close> is \<^verbatim>\<open>Date.now()\<close>; a synchronous call takes no time, so every
  read of the clock within one call sees the same instant.

  The callbacks are the two closures of \<^verbatim>\<open>scheduleJob\<close>: the intermediate one, which
  only calls \<^verbatim>\<open>scheduleJob\<close> again, and the real one, which captures the job object it
  was armed for.

  \<open>trace\<close> records, in order, the effects on the in-flight table and the child
  processes spawned (the execution sink).
\<close>

datatype callback = Recheck string | Fire string job

datatype effect =
    RunningSet string int
  | RunningDelete string
  | Spawn string "string list"

record state =
  jobs :: "(string \<times> job) list"
  timers :: "(string \<times> nat) list"
  running :: "(string \<times> int) list"
  clock :: int
  pending :: "(nat \<times> int \<times> callback) list"
  next_timer :: nat
  trace :: "effect list"

definition running_set :: "string \<Rightarrow> int \<Rightarrow> state \<Rightarrow> state" where
  "running_set n t s =
     s\<lparr>running := AList.update n t (running s), trace := trace s @ [RunningSet n t]\<rparr>"

definition running_delete :: "string \<Rightarrow> state \<Rightarrow> state" where
  "running_delete n s =
     s\<lparr>running := AList.delete n (running s), trace := trace s @ [RunningDelete n]\<rparr>"

definition spawn :: "string \<Rightarrow> string list \<Rightarrow> state \<Rightarrow> state" where
  "spawn n args s = s\<lparr>trace := trace s @ [Spawn n args]\<rparr>"

section \<open>core/executor.js\<close>

datatype error =
    ScriptNotFound string
  | ExitedWithCode string "int option"
  | SpawnFailed string
  | StartListenerThrew string
  | StringifyThrew string
  | SpawnThrew string
  | DateAndTimeout string
  | DuplicateJobName "string option"

text \<open>
  What the promise returned by \<^verbatim>\<open>executeJob\<close> is when the call returns: resolved with
  a skip, rejected, or still pending on a spawned child.
\<close>

datatype outcome = Skipped string | Rejected error | Started

text \<open>What a pending promise settles to when the child emits \<^verbatim>\<open>exit\<close> or \<^verbatim>\<open>error\<close>.\<close>

datatype settled = Succeeded "int option" | Failed error

definition buildCommandArgs :: "env \<Rightarrow> string \<Rightarrow> obj \<Rightarrow> string list" where
  "buildCommandArgs E scriptName inps =
     [''run'', scriptName] @ map (\<lambda>(k, v). ''--'' @ k @ ''='' @ json_stringify E v) inps"

definition merged_inputs :: "job \<Rightarrow> obj option \<Rightarrow> obj" where
  "merged_inputs j customInputs =
     spread (spread (spread [] (inputs j)) (scriptInputs j))
       (case customInputs of None \<Rightarrow> [] | Some c \<Rightarrow> c)"

text \<open>\<^verbatim>\<open>buildCommandArgs\<close> throws when \<^verbatim>\<open>JSON.stringify\<close> throws on one of the values.\<close>

definition stringify_throws :: "env \<Rightarrow> obj \<Rightarrow> bool" where
  "stringify_throws E inps = list_ex (\<lambda>(k, v). json_throws E v) inps"

text \<open>
  \<^verbatim>\<open>executeJob\<close>, up to the point where the child has been spawned and the handlers
  are registered. After the in-flight entry has been written, the statements run in
  this order: the start event is emitted, the arguments are built, the script file is
  looked up, the child is spawned. A throw of any of them rejects the promise. Only
  the branch for a missing script deletes the in-flight entry before it rejects.
\<close>

definition executeJob :: "env \<Rightarrow> string \<Rightarrow> job \<Rightarrow> obj option \<Rightarrow> state \<Rightarrow> outcome \<times> state" where
  "executeJob E n j customInputs s =
     (if withoutOverlapping j \<and> map_of (running s) n \<noteq> None
        then (Skipped ''already_running'', s)
      else if paused j
        then (Skipped ''paused'', s)
      else
        let s1 = running_set n (clock s) s;
            inps = merged_inputs j customInputs
        in if start_listener_throws E n inps
             then (Rejected (StartListenerThrew n), s1)
           else if stringify_throws E inps
             then (Rejected (StringifyThrew n), s1)
           else if \<not> script_exists E n
             then (Rejected (ScriptNotFound n), running_delete n s1)
           else if spawn_throws E n (buildCommandArgs E n inps)
             then (Rejected (SpawnThrew n), s1)
           else (Started, spawn n (buildCommandArgs E n inps) s1))"

text \<open>
  The execution gets as far as a running child: no statement between the write of the
  in-flight entry and the registration of the handlers throws, and the script is there.
\<close>

definition starts_cleanly :: "env \<Rightarrow> string \<Rightarrow> obj \<Rightarrow> bool" where
  "starts_cleanly E n inps =
     (\<not> start_listener_throws E n inps \<and> \<not> stringify_throws E inps \<and> script_exists E n
      \<and> \<not> spawn_throws E n (buildCommandArgs E n inps))"

text \<open>
  The handler of the child's \<^verbatim>\<open>exit\<close> event. The duration is \<^verbatim>\<open>NaN\<close> (\<open>None\<close>)
  when the in-flight entry is already gone. An exit code of \<^verbatim>\<open>null\<close> (the child was
  killed by a signal) is \<open>None\<close>.
\<close>

definition on_exit :: "string \<Rightarrow> int option \<Rightarrow> state \<Rightarrow> settled \<times> state" where
  "on_exit n code s =
     (let startTime = map_of (running s) n;
          duration = map_option (\<lambda>t. clock s - t) startTime;
          s1 = running_delete n s
      in if code = Some 0 then (Succeeded duration, s1)
         else (Failed (ExitedWithCode n code), s1))"

text \<open>The handler of the child's \<^verbatim>\<open>error\<close> event (the process could not be started).\<close>

definition on_error :: "string \<Rightarrow> state \<Rightarrow> settled \<times> state" where
  "on_error n s = (Failed (SpawnFailed n), running_delete n s)"

section \<open>The hook's context: dispatch by name\<close>

text \<open>
  \<^verbatim>\<open>context.executeJob\<close> of the hook. A name that is not registered runs with a
  minimal job object; its missing \<^verbatim>\<open>paused\<close> and \<^verbatim>\<open>scriptInputs\<close> are
  \<^verbatim>\<open>undefined\<close>, which the executor reads as not paused and as nothing to spread.
\<close>

definition minimalJob :: "string \<Rightarrow> job" where
  "minimalJob n =
     \<lparr>name = n, friendlyName = JUndefined, description = JUndefined,
      interval = JUndefined, timeout = JUndefined, cron = JUndefined,
      cronValidate = JUndefined, date = JUndefined,
      inputs = [], scriptInputs = [], paused = False, withoutOverlapping = False\<rparr>"

definition context_executeJob :: "env \<Rightarrow> string \<Rightarrow> obj option \<Rightarrow> state \<Rightarrow> outcome \<times> state" where
  "context_executeJob E n customInputs s =
     (case map_of (jobs s) n of
        None \<Rightarrow> executeJob E n (minimalJob n) customInputs s
      | Some j \<Rightarrow> executeJob E n j customInputs s)"

text \<open>
  The names a batch operation works on: those given (a single name is the list of that
  name), or, when none are given, the keys of the registry in insertion order.
\<close>

definition batch_names :: "string list option \<Rightarrow> state \<Rightarrow> string list" where
  "batch_names jobNames s = (case jobNames of None \<Rightarrow> map fst (jobs s) | Some ns \<Rightarrow> ns)"

text \<open>\<^verbatim>\<open>runJobs\<close>: the calls are made one after the other, in the order of the names.\<close>

fun run_each :: "env \<Rightarrow> string list \<Rightarrow> obj option \<Rightarrow> state \<Rightarrow> outcome list \<times> state" where
  "run_each E [] inps s = ([], s)"
| "run_each E (n # ns) inps s =
     (let (r, s1) = context_executeJob E n inps s;
          (rs, s2) = run_each E ns inps s1
      in (r # rs, s2))"

definition runJobs :: "env \<Rightarrow> string list option \<Rightarrow> obj option \<Rightarrow> state \<Rightarrow> outcome list \<times> state" where
  "runJobs E jobNames inps s =
     run_each E (batch_names jobNames s) inps s"

text \<open>\<^verbatim>\<open>pauseJob\<close> and \<^verbatim>\<open>resumeJob\<close> set the flag of the registered job object.\<close>

definition pauseJob :: "string \<Rightarrow> state \<Rightarrow> bool \<times> state" where
  "pauseJob n s =
     (case map_of (jobs s) n of
        Some j \<Rightarrow> (True, s\<lparr>jobs := AList.update n (j\<lparr>paused := True\<rparr>) (jobs s)\<rparr>)
      | None \<Rightarrow> (False, s))"

definition resumeJob :: "string \<Rightarrow> state \<Rightarrow> bool \<times> state" where
  "resumeJob n s =
     (case map_of (jobs s) n of
        Some j \<Rightarrow> (True, s\<lparr>jobs := AList.update n (j\<lparr>paused := False\<rparr>) (jobs s)\<rparr>)
      | None \<Rightarrow> (False, s))"

section \<open>core/scheduler.js\<close>

text \<open>
  Text is a list of characters. The regular expressions of the source use \<^verbatim>\<open>\d\<close>
  (the ten ASCII digits), \<^verbatim>\<open>\s\<close> (white space) and, under the \<^verbatim>\<open>i\<close> flag, letters
  compared without case.
\<close>

definition is_digit :: "char \<Rightarrow> bool" where
  "is_digit c = (c \<in> set ''0123456789'')"

definition is_space :: "char \<Rightarrow> bool" where
  "is_space c = (c \<in> set [CHR 0x09, CHR 0x0A, CHR 0x0B, CHR 0x0C, CHR 0x0D, CHR 0x20, CHR 0xA0])"

definition to_lower :: "char \<Rightarrow> char" where
  "to_lower c =
     (case map_of (zip ''ABCDEFGHIJKLMNOPQRSTUVWXYZ'' ''abcdefghijklmnopqrstuvwxyz'') c of
        Some l \<Rightarrow> l
      | None \<Rightarrow> c)"

definition digit_val :: "char \<Rightarrow> int" where
  "digit_val c = (case map_of (zip ''0123456789'' [0, 1, 2, 3, 4, 5, 6, 7, 8, 9]) c of
                    Some d \<Rightarrow> d | None \<Rightarrow> 0)"

definition parseInt :: "string \<Rightarrow> int" where
  "parseInt ds = foldl (\<lambda>a c. 10 * a + digit_val c) 0 ds"

fun str_includes :: "string \<Rightarrow> string \<Rightarrow> bool" where
  "str_includes sub [] = (sub = [])"
| "str_includes sub (c # cs) = (take (length sub) (c # cs) = sub \<or> str_includes sub cs)"

text \<open>\<^verbatim>\<open>convertShorthand\<close>: the pattern is \<^verbatim>\<open>/^(\d+)([smhd])$/\<close>.\<close>

definition convertShorthand :: "string \<Rightarrow> string" where
  "convertShorthand str =
     (let ds = takeWhile is_digit str; u = dropWhile is_digit str
      in if ds \<noteq> [] \<and> u = ''s'' then ds @ '' seconds''
         else if ds \<noteq> [] \<and> u = ''m'' then ds @ '' minutes''
         else if ds \<noteq> [] \<and> u = ''h'' then ds @ '' hours''
         else if ds \<noteq> [] \<and> u = ''d'' then ds @ '' days''
         else str)"

text \<open>
  The match of \<^verbatim>\<open>/^every\s+(\d+)\s+(seconds?|minutes?|hours?|days?)$/i\<close>: the two
  groups, the second as it is written in the text.
\<close>

definition everyMatch :: "string \<Rightarrow> (string \<times> string) option" where
  "everyMatch str =
     (let r1 = drop 5 str;
          r2 = dropWhile is_space r1;
          ds = takeWhile is_digit r2;
          r3 = dropWhile is_digit r2;
          u = dropWhile is_space r3
      in if map to_lower (take 5 str) = ''every''
            \<and> takeWhile is_space r1 \<noteq> [] \<and> ds \<noteq> [] \<and> takeWhile is_space r3 \<noteq> []
            \<and> map to_lower u \<in> set [''second'', ''seconds'', ''minute'', ''minutes'',
                                    ''hour'', ''hours'', ''day'', ''days'']
         then Some (ds, u) else None)"

definition msMap :: "string \<Rightarrow> int option" where
  "msMap u = map_of [(''second'', 1000), (''minute'', 60000),
                     (''hour'', 3600000), (''day'', 86400000)] u"

text \<open>\<^verbatim>\<open>unit.replace(/s$/, '')\<close>: only a lower-case final letter is removed.\<close>

definition strip_plural :: "string \<Rightarrow> string" where
  "strip_plural u = (if u \<noteq> [] \<and> last u = CHR ''s'' then butlast u else u)"

definition every_ms :: "string \<Rightarrow> int option" where
  "every_ms processedStr =
     (case everyMatch processedStr of
        None \<Rightarrow> None
      | Some (ds, u) \<Rightarrow>
          (case msMap (strip_plural u) of
             None \<Rightarrow> None
           | Some f \<Rightarrow> if parseInt ds * f \<noteq> 0 then Some (parseInt ds * f) else None))"

definition parseInterval :: "env \<Rightarrow> string \<Rightarrow> int \<Rightarrow> int option" where
  "parseInterval E intervalStr fromDate =
     (let processedStr = convertShorthand intervalStr
      in case every_ms processedStr of
           Some ms \<Rightarrow> Some (fromDate + ms)
         | None \<Rightarrow>
            (case (if str_includes ''at'' processedStr \<or> str_includes ''on the'' processedStr
                   then later_next E processedStr fromDate else None) of
               Some t \<Rightarrow> Some t
             | None \<Rightarrow>
                (case human_interval E processedStr of
                   Some ms \<Rightarrow> if ms \<noteq> 0 then Some (fromDate + ms) else None
                 | None \<Rightarrow> None)))"

definition parseTimeout :: "env \<Rightarrow> jsval \<Rightarrow> int \<Rightarrow> int option" where
  "parseTimeout E tmo fromDate =
     (case tmo of
        JStr t \<Rightarrow>
          (case (if take 3 t = ''at '' then later_at E t fromDate else None) of
             Some r \<Rightarrow> r
           | None \<Rightarrow>
              (case human_interval E t of
                 Some ms \<Rightarrow> if ms \<noteq> 0 then Some (fromDate + ms) else None
               | None \<Rightarrow> None))
      | JNum n \<Rightarrow> Some (fromDate + n)
      | _ \<Rightarrow> None)"

text \<open>\<^verbatim>\<open>new Date(job.date).getTime()\<close>, \<open>None\<close> for an invalid date.\<close>

definition to_date :: "env \<Rightarrow> jsval \<Rightarrow> int option" where
  "to_date E v =
     (case v of
        JDate d \<Rightarrow> Some d
      | JNum n \<Rightarrow> Some n
      | JStr t \<Rightarrow> date_parse E t
      | JBool b \<Rightarrow> Some (if b then 1 else 0)
      | JNull \<Rightarrow> Some 0
      | JUndefined \<Rightarrow> None)"

fun is_string :: "jsval \<Rightarrow> bool" where
  "is_string (JStr t) = True"
| "is_string v = False"

fun is_number :: "jsval \<Rightarrow> bool" where
  "is_number (JNum i) = True"
| "is_number v = False"

definition has_timeout :: "job \<Rightarrow> bool" where
  "has_timeout j = (timeout j \<noteq> JUndefined \<and> timeout j \<noteq> JBool False)"

text \<open>
  \<^verbatim>\<open>getNextRunTime\<close>, with the instant \<open>now\<close> that its first line reads from the
  clock. It throws (\<open>Inl\<close>) or returns a date or \<^verbatim>\<open>null\<close> (\<open>Inr\<close>). A job of the
  registry has no \<^verbatim>\<open>timezone\<close> and no \<^verbatim>\<open>cronOptions\<close> of its own
  (\<^verbatim>\<open>addJobDefinition\<close> copies neither), so the time zone is the configured one. A cron
  field that is truthy but no text makes the cron parser throw, which the source catches.
\<close>

definition getNextRunTime :: "env \<Rightarrow> job \<Rightarrow> int \<Rightarrow> error + int option" where
  "getNextRunTime E j now =
     (if truthy (date j) \<and> has_timeout j then Inl (DateAndTimeout (name j))
      else if truthy (cron j) then
        Inr (case cron j of JStr c \<Rightarrow> cron_next E c (cfg_timezone E) now | _ \<Rightarrow> None)
      else if truthy (interval j) \<and> is_string (interval j) then
        Inr (case interval j of JStr t \<Rightarrow> parseInterval E t now | _ \<Rightarrow> None)
      else if is_number (interval j) then
        Inr (case interval j of JNum i \<Rightarrow> Some (now + i) | _ \<Rightarrow> None)
      else if has_timeout j then Inr (parseTimeout E (timeout j) now)
      else if truthy (date j) then
        Inr (case to_date E (date j) of
               Some d \<Rightarrow> if d > now then Some d else None
             | None \<Rightarrow> None)
      else Inr None)"

section \<open>core/job-control.js\<close>

definition MAX_SAFE_TIMEOUT :: int where
  "MAX_SAFE_TIMEOUT = 2147483647"

text \<open>
  The platform's \<^verbatim>\<open>setTimeout\<close>: a delay below 1 or above \<open>2^31 - 1\<close> milliseconds is
  replaced by 1. \<^verbatim>\<open>clearTimeout\<close> and \<^verbatim>\<open>clearInterval\<close> take the timer out of the
  queue and do nothing for a handle that is no longer there.
\<close>

definition setTimeout :: "callback \<Rightarrow> int \<Rightarrow> state \<Rightarrow> nat \<times> state" where
  "setTimeout cb delay s =
     (let after = (if delay < 1 \<or> delay > 2147483647 then 1 else delay)
      in (next_timer s,
          s\<lparr>pending := pending s @ [(next_timer s, clock s + after, cb)],
            next_timer := Suc (next_timer s)\<rparr>))"

definition clearTimeout :: "nat \<Rightarrow> state \<Rightarrow> state" where
  "clearTimeout t s = s\<lparr>pending := AList.delete t (pending s)\<rparr>"

definition clearInterval :: "nat \<Rightarrow> state \<Rightarrow> state" where
  "clearInterval t s = s\<lparr>pending := AList.delete t (pending s)\<rparr>"

definition stopJob :: "string \<Rightarrow> state \<Rightarrow> state" where
  "stopJob n s =
     (case map_of (timers s) n of
        Some t \<Rightarrow>
          (let s1 = clearInterval t (clearTimeout t s)
           in s1\<lparr>timers := AList.delete n (timers s1)\<rparr>)
      | None \<Rightarrow> s)"

text \<open>How a synchronous call ends: it returns, or it throws.\<close>

datatype completion = Returned | Threw error

definition arm :: "string \<Rightarrow> callback \<Rightarrow> int \<Rightarrow> state \<Rightarrow> state" where
  "arm n cb delay s =
     (let (t, s1) = setTimeout cb delay s
      in s1\<lparr>timers := AList.update n t (timers s1)\<rparr>)"

definition recurring :: "job \<Rightarrow> bool" where
  "recurring j = (truthy (interval j) \<or> truthy (cron j))"

text \<open>
  \<^verbatim>\<open>scheduleJob\<close>. In the catch-up branch it calls itself, with nothing that bounds the
  depth, so the model is a partial function: \<open>None\<close> is the call that never returns.
  The rejection of the promise of \<^verbatim>\<open>executeJob\<close> is caught and logged.
\<close>

partial_function (option) scheduleJob :: "env \<Rightarrow> string \<Rightarrow> state \<Rightarrow> (completion \<times> state) option" where
  "scheduleJob E n s =
     (case map_of (jobs s) n of
        None \<Rightarrow> Some (Returned, s)
      | Some j \<Rightarrow>
          (case getNextRunTime E j (clock (stopJob n s)) of
             Inl e \<Rightarrow> Some (Threw e, stopJob n s)
           | Inr None \<Rightarrow> Some (Returned, stopJob n s)
           | Inr (Some nextRun) \<Rightarrow>
               if nextRun - clock (stopJob n s) \<le> 0 then
                 (if recurring j
                  then scheduleJob E n (snd (context_executeJob E n None (stopJob n s)))
                  else Some (Returned, snd (context_executeJob E n None (stopJob n s))))
               else if nextRun - clock (stopJob n s) > MAX_SAFE_TIMEOUT then
                 Some (Returned, arm n (Recheck n) MAX_SAFE_TIMEOUT (stopJob n s))
               else
                 Some (Returned, arm n (Fire n j) (nextRun - clock (stopJob n s)) (stopJob n s))))"

text \<open>What a timer does when it fires: the body of the closure it was set with.\<close>

definition run_callback :: "env \<Rightarrow> callback \<Rightarrow> state \<Rightarrow> (completion \<times> state) option" where
  "run_callback E cb s =
     (case cb of
        Recheck n \<Rightarrow> scheduleJob E n s
      | Fire n j \<Rightarrow>
          (let s1 = snd (context_executeJob E n None s)
           in if recurring j then scheduleJob E n s1 else Some (Returned, s1)))"

text \<open>
  The platform fires the pending timer \<open>t\<close> at the instant \<open>at\<close>: the timer leaves the
  queue, the clock shows \<open>at\<close>, the callback runs.
\<close>

definition timer_fires :: "env \<Rightarrow> nat \<Rightarrow> int \<Rightarrow> state \<Rightarrow> (completion \<times> state) option" where
  "timer_fires E t at s =
     (case map_of (pending s) t of
        None \<Rightarrow> Some (Returned, s)
      | Some (due, cb) \<Rightarrow>
          run_callback E cb (s\<lparr>clock := at, pending := AList.delete t (pending s)\<rparr>))"

text \<open>\<^verbatim>\<open>startJobs\<close>: the loop has no handler, so a throw of \<^verbatim>\<open>scheduleJob\<close> ends it.\<close>

fun schedule_each :: "env \<Rightarrow> string list \<Rightarrow> state \<Rightarrow> (completion \<times> state) option" where
  "schedule_each E [] s = Some (Returned, s)"
| "schedule_each E (n # ns) s =
     (case scheduleJob E n s of
        None \<Rightarrow> None
      | Some (Threw e, s1) \<Rightarrow> Some (Threw e, s1)
      | Some (Returned, s1) \<Rightarrow> schedule_each E ns s1)"

definition startJobs :: "env \<Rightarrow> string list option \<Rightarrow> state \<Rightarrow> (completion \<times> state) option" where
  "startJobs E jobNames s =
     schedule_each E (batch_names jobNames s) s"

definition stopJobs :: "string list option \<Rightarrow> state \<Rightarrow> state" where
  "stopJobs jobNames s =
     fold stopJob (batch_names jobNames s) s"

section \<open>core/loader.js\<close>

definition extractScriptInputDefaults :: "obj \<Rightarrow> obj" where
  "extractScriptInputDefaults inps =
     fold (\<lambda>(k, d) defaults. if d \<noteq> JUndefined then AList.update k d defaults else defaults)
       inps []"

text \<open>
  \<^verbatim>\<open>addJobDefinition\<close>: a definition without a name (or with the empty name) is skipped;
  otherwise the normalised job replaces whatever the registry holds under the name.
\<close>

definition addJobDefinition :: "env \<Rightarrow> jobDef \<Rightarrow> state \<Rightarrow> job option \<times> state" where
  "addJobDefinition E d s =
     (case d_name d of
        None \<Rightarrow> (None, s)
      | Some n \<Rightarrow>
          if n = [] then (None, s)
          else
            let j = \<lparr>name = n,
                     friendlyName = (if truthy (d_friendlyName d) then d_friendlyName d else JStr n),
                     description = d_description d,
                     interval = d_interval d,
                     timeout = d_timeout d,
                     cron = d_cron d,
                     cronValidate = d_cronValidate d,
                     date = d_date d,
                     inputs = (case d_inputs d of Some i \<Rightarrow> i | None \<Rightarrow> []),
                     scriptInputs = (case d_scriptInputs d of Some i \<Rightarrow> i | None \<Rightarrow> []),
                     paused = False,
                     withoutOverlapping =
                       (case d_withoutOverlapping d of
                          Some b \<Rightarrow> b
                        | None \<Rightarrow> (case cfg_withoutOverlapping E of Some b \<Rightarrow> b | None \<Rightarrow> True))\<rparr>
            in (Some j, s\<lparr>jobs := AList.update n j (jobs s)\<rparr>))"

definition name_only :: "string \<Rightarrow> jobDef" where
  "name_only n =
     \<lparr>d_name = Some n, d_friendlyName = JUndefined, d_description = JUndefined,
      d_interval = JUndefined, d_timeout = JUndefined, d_cron = JUndefined,
      d_cronValidate = JUndefined, d_date = JUndefined, d_inputs = None,
      d_scriptInputs = None, d_withoutOverlapping = None\<rparr>"

text \<open>A property key made from a name that may be \<^verbatim>\<open>undefined\<close>.\<close>

definition property_key :: "string option \<Rightarrow> string" where
  "property_key k = (case k of None \<Rightarrow> ''undefined'' | Some n \<Rightarrow> n)"

definition entry_def :: "config_entry \<Rightarrow> jobDef" where
  "entry_def e = (case e of ByName n \<Rightarrow> name_only n | ByDef d \<Rightarrow> d)"

definition entry_name :: "config_entry \<Rightarrow> string option" where
  "entry_name e = d_name (entry_def e)"

text \<open>
  A definition from the configuration takes the input defaults of the script of the
  same name, when there is such a script and the definition brings no
  \<^verbatim>\<open>scriptInputs\<close> of its own.
\<close>

definition with_script_defaults :: "env \<Rightarrow> jobDef \<Rightarrow> jobDef" where
  "with_script_defaults E d =
     (case map_of (scripts E) (property_key (d_name d)) of
        Some sd \<Rightarrow>
          if d_scriptInputs d = None
          then d\<lparr>d_scriptInputs := Some (extractScriptInputDefaults (sd_inputs sd))\<rparr>
          else d
      | None \<Rightarrow> d)"

text \<open>
  The first loop of \<^verbatim>\<open>loadJobs\<close>, over \<^verbatim>\<open>config.jobs\<close>; \<open>seen\<close> is the set
  \<^verbatim>\<open>configJobNames\<close>. The \<^verbatim>\<open>throw\<close> leaves the loop and the function.
\<close>

fun load_config_jobs :: "env \<Rightarrow> config_entry list \<Rightarrow> string option list \<Rightarrow> state \<Rightarrow> completion \<times> state" where
  "load_config_jobs E [] seen s = (Returned, s)"
| "load_config_jobs E (e # es) seen s =
     (let d = entry_def e
      in if d_name d \<in> set seen then (Threw (DuplicateJobName (d_name d)), s)
         else load_config_jobs E es (d_name d # seen)
                (snd (addJobDefinition E (with_script_defaults E d) s)))"

text \<open>\<^verbatim>\<open>scriptFile.replace(/\.js$/, '')\<close>\<close>

definition strip_js :: "string \<Rightarrow> string" where
  "strip_js f =
     (if length f \<ge> 3 \<and> drop (length f - 3) f = ''.js'' then take (length f - 3) f else f)"

text \<open>\<^verbatim>\<open>questConfig.name || scriptName\<close>\<close>

definition script_jobName :: "string \<Rightarrow> jobDef \<Rightarrow> string" where
  "script_jobName scriptFile q =
     (case d_name q of
        Some n \<Rightarrow> if n \<noteq> [] then n else strip_js scriptFile
      | None \<Rightarrow> strip_js scriptFile)"

text \<open>
  The definition that the second loop builds for a script with a \<^verbatim>\<open>quest\<close> property:
  the object literal lists its own properties first and then spreads \<^verbatim>\<open>questConfig\<close>
  over them, so a property that \<^verbatim>\<open>questConfig\<close> has wins; \<^verbatim>\<open>scriptInputs\<close> comes
  last.
\<close>

definition script_jobDef :: "string \<Rightarrow> scriptDef \<Rightarrow> jobDef \<Rightarrow> job option \<Rightarrow> jobDef" where
  "script_jobDef scriptFile sd q existingJob =
     (let jobName = script_jobName scriptFile q
      in \<lparr>d_name = (case d_name q of Some n \<Rightarrow> Some n | None \<Rightarrow> Some jobName),
          d_friendlyName =
            (if d_friendlyName q \<noteq> JUndefined then d_friendlyName q else sd_friendlyName sd),
          d_description =
            (if d_description q \<noteq> JUndefined then d_description q else sd_description sd),
          d_interval = d_interval q,
          d_timeout = d_timeout q,
          d_cron = d_cron q,
          d_cronValidate = d_cronValidate q,
          d_date = d_date q,
          d_inputs =
            (case d_inputs q of
               Some i \<Rightarrow> Some i
             | None \<Rightarrow>
                 Some (spread (spread [] (case existingJob of Some j \<Rightarrow> inputs j | None \<Rightarrow> [])) [])),
          d_scriptInputs = Some (extractScriptInputDefaults (sd_inputs sd)),
          d_withoutOverlapping =
            (case d_withoutOverlapping q of
               Some b \<Rightarrow> Some b
             | None \<Rightarrow> map_option withoutOverlapping existingJob)\<rparr>)"

fun load_script_jobs :: "env \<Rightarrow> (string \<times> scriptDef) list \<Rightarrow> state \<Rightarrow> state" where
  "load_script_jobs E [] s = s"
| "load_script_jobs E ((scriptFile, sd) # rest) s =
     (case sd_quest sd of
        None \<Rightarrow> load_script_jobs E rest s
      | Some q \<Rightarrow>
          load_script_jobs E rest
            (snd (addJobDefinition E
                    (script_jobDef scriptFile sd q (map_of (jobs s) (script_jobName scriptFile q)))
                    s)))"

definition loadJobs :: "env \<Rightarrow> state \<Rightarrow> completion \<times> state" where
  "loadJobs E s =
     (case load_config_jobs E (cfg_jobs E) [] s of
        (Threw e, s1) \<Rightarrow> (Threw e, s1)
      | (Returned, s1) \<Rightarrow> (Returned, load_script_jobs E (scripts E) s1))"

definition removeJob :: "string \<Rightarrow> state \<Rightarrow> bool \<times> state" where
  "removeJob n s =
     (let s1 = (case map_of (timers s) n of
                  Some t \<Rightarrow>
                    (let s' = clearInterval t (clearTimeout t s)
                     in s'\<lparr>timers := AList.delete n (timers s')\<rparr>)
                | None \<Rightarrow> s)
      in (map_of (jobs s1) n \<noteq> None, s1\<lparr>jobs := AList.delete n (jobs s1)\<rparr>))"

section \<open>Live timers, runs of the scheduler\<close>

fun cb_name :: "callback \<Rightarrow> string" where
  "cb_name (Recheck n) = n"
| "cb_name (Fire n j) = n"

text \<open>The live timers of a job: the pending timers whose callback is for that job.\<close>

definition live_timers :: "string \<Rightarrow> state \<Rightarrow> (nat \<times> int \<times> callback) list" where
  "live_timers n s = filter (\<lambda>p. cb_name (snd (snd p)) = n) (pending s)"

text \<open>
  The invariant of the timer table: the table has one entry per job and no handle
  twice, every handle in it was issued before, the handles in the queue are distinct,
  and every pending timer is the one that the table holds for its job.
\<close>

definition timers_ok :: "state \<Rightarrow> bool" where
  "timers_ok s =
     (distinct (map fst (timers s))
      \<and> distinct (map snd (timers s))
      \<and> (\<forall>e \<in> set (timers s). snd e < next_timer s)
      \<and> distinct (map fst (pending s))
      \<and> (\<forall>p \<in> set (pending s). (cb_name (snd (snd p)), fst p) \<in> set (timers s)))"

text \<open>
  A registered recurring job whose next run time is not after the clock: the catch-up
  branch of \<^verbatim>\<open>scheduleJob\<close> runs it and calls \<^verbatim>\<open>scheduleJob\<close> again.
\<close>

definition overdue_recurring :: "env \<Rightarrow> string \<Rightarrow> state \<Rightarrow> bool" where
  "overdue_recurring E n s =
     (case map_of (jobs s) n of
        None \<Rightarrow> False
      | Some j \<Rightarrow>
          recurring j
          \<and> (case getNextRunTime E j (clock s) of
                Inr (Some nextRun) \<Rightarrow> nextRun \<le> clock s
              | _ \<Rightarrow> False))"

text \<open>A registered job that declares both a date and a timeout.\<close>

definition conflicting_schedule :: "state \<Rightarrow> string \<Rightarrow> bool" where
  "conflicting_schedule s n =
     (case map_of (jobs s) n of
        None \<Rightarrow> False
      | Some j \<Rightarrow> truthy (date j) \<and> has_timeout j)"

text \<open>
  The single-job operation applied to each name of a list in turn, every call returning
  normally: \<open>scheduled_in_turn E ns s s'\<close> leads from \<open>s\<close> to \<open>s'\<close>.
\<close>

inductive scheduled_in_turn :: "env \<Rightarrow> string list \<Rightarrow> state \<Rightarrow> state \<Rightarrow> bool" for E :: env where
  turn_done: "scheduled_in_turn E [] s s"
| turn_step: "scheduleJob E n s = Some (Returned, s1) \<Longrightarrow> scheduled_in_turn E ns s1 s'
              \<Longrightarrow> scheduled_in_turn E (n # ns) s s'"

text \<open>
  The hook starts with empty tables. From there the state changes by the calls of the
  public surface and by what the platform delivers: a timer that fires, a child that
  exits or fails to start, the clock that moves on. A call that never returns has no
  next state; a call that throws leaves the state it had reached.
\<close>

definition initial_state :: "int \<Rightarrow> state" where
  "initial_state t0 =
     \<lparr>jobs = [], timers = [], running = [], clock = t0, pending = [], next_timer = 0, trace = []\<rparr>"

datatype event =
    Load
  | Add jobDef
  | Remove string
  | Schedule string
  | Stop string
  | StartAll "string list option"
  | StopAll "string list option"
  | Run "string list option" "obj option"
  | Pause string
  | Resume string
  | TimerFires nat int
  | ChildExit string "int option"
  | ChildError string
  | ClockMoves int

definition step :: "env \<Rightarrow> event \<Rightarrow> state \<Rightarrow> state option" where
  "step E ev s =
     (case ev of
        Load \<Rightarrow> Some (snd (loadJobs E s))
      | Add d \<Rightarrow> Some (snd (addJobDefinition E d s))
      | Remove n \<Rightarrow> Some (snd (removeJob n s))
      | Schedule n \<Rightarrow> map_option snd (scheduleJob E n s)
      | Stop n \<Rightarrow> Some (stopJob n s)
      | StartAll ns \<Rightarrow> map_option snd (startJobs E ns s)
      | StopAll ns \<Rightarrow> Some (stopJobs ns s)
      | Run ns inps \<Rightarrow> Some (snd (runJobs E ns inps s))
      | Pause n \<Rightarrow> Some (snd (pauseJob n s))
      | Resume n \<Rightarrow> Some (snd (resumeJob n s))
      | TimerFires t at \<Rightarrow> map_option snd (timer_fires E t at s)
      | ChildExit n code \<Rightarrow> Some (snd (on_exit n code s))
      | ChildError n \<Rightarrow> Some (snd (on_error n s))
      | ClockMoves at \<Rightarrow> Some (s\<lparr>clock := at\<rparr>))"

inductive reachable :: "env \<Rightarrow> state \<Rightarrow> bool" for E :: env where
  reach_init: "reachable E (initial_state t0)"
| reach_step: "reachable E s \<Longrightarrow> step E ev s = Some s' \<Longrightarrow> reachable E s'"

section \<open>A small installation, for concrete runs\<close>

text \<open>
  One script file, \<^verbatim>\<open>report.js\<close>; libraries that recognise no text; numbers printed
  in decimal for the few values used.
\<close>

definition demo_env :: env where
  "demo_env =
     \<lparr>cron_next = (\<lambda>c tz now. None),
      later_next = (\<lambda>t now. None),
      later_at = (\<lambda>t now. None),
      human_interval = (\<lambda>t. None),
      date_parse = (\<lambda>t. None),
      json_stringify = (\<lambda>v. case v of
                            JNum i \<Rightarrow> (if i = 0 then ''0'' else if i = 1 then ''1'' else ''2'')
                          | _ \<Rightarrow> ''null''),
      json_throws = (\<lambda>v. False),
      start_listener_throws = (\<lambda>n inps. False),
      spawn_throws = (\<lambda>n args. False),
      script_exists = (\<lambda>n. n = ''report''),
      scripts = [],
      cfg_jobs = [],
      cfg_timezone = Some ''UTC'',
      cfg_withoutOverlapping = Some True\<rparr>"

definition demo_def :: jobDef where
  "demo_def = (name_only ''report'')\<lparr>d_interval := JNum 1000\<rparr>"

definition demo_job :: job where
  "demo_job =
     \<lparr>name = ''report'', friendlyName = JStr ''report'', description = JUndefined,
      interval = JNum 1000, timeout = JUndefined, cron = JUndefined,
      cronValidate = JUndefined, date = JUndefined,
      inputs = [], scriptInputs = [], paused = False, withoutOverlapping = True\<rparr>"

definition demo_state :: state where
  "demo_state =
     \<lparr>jobs = [(''report'', demo_job)], timers = [], running = [], clock = 0,
      pending = [], next_timer = 0, trace = []\<rparr>"

text \<open>
  The run used below: the job is scheduled at instant 0, its timer fires at 1000, and
  the child exits at 1700.
\<close>

definition demo_armed :: state where
  "demo_armed =
     \<lparr>jobs = [(''report'', demo_job)], timers = [(''report'', 0)], running = [], clock = 0,
      pending = [(0, 1000, Fire ''report'' demo_job)], next_timer = 1, trace = []\<rparr>"

definition demo_fired :: state where
  "demo_fired =
     \<lparr>jobs = [(''report'', demo_job)], timers = [(''report'', 1)],
      running = [(''report'', 1000)], clock = 1000,
      pending = [(1, 2000, Fire ''report'' demo_job)], next_timer = 2,
      trace = [RunningSet ''report'' 1000, Spawn ''report'' [''run'', ''report'']]\<rparr>"

definition demo_done :: state where
  "demo_done =
     \<lparr>jobs = [(''report'', demo_job)], timers = [(''report'', 1)],
      running = [], clock = 1700,
      pending = [(1, 2000, Fire ''report'' demo_job)], next_timer = 2,
      trace = [RunningSet ''report'' 1000, Spawn ''report'' [''run'', ''report''],
               RunningDelete ''report'']\<rparr>"

text \<open>A job that runs every 30 days, given in milliseconds, registered at instant 0.\<close>

definition monthly_job :: job where
  "monthly_job = demo_job\<lparr>name := ''monthly'', friendlyName := JStr ''monthly'',
                           interval := JNum 2592000000\<rparr>"

definition monthly_state :: state where
  "monthly_state =
     \<lparr>jobs = [(''monthly'', monthly_job)], timers = [], running = [], clock = 0,
      pending = [], next_timer = 0, trace = []\<rparr>"

text \<open>
  The same registry after \<^verbatim>\<open>scheduleJob\<close> at instant 0, and after the timer set by
  that call has fired at its due instant.
\<close>

definition monthly_armed :: state where
  "monthly_armed =
     \<lparr>jobs = [(''monthly'', monthly_job)], timers = [(''monthly'', 0)], running = [], clock = 0,
      pending = [(0, 2147483647, Recheck ''monthly'')], next_timer = 1, trace = []\<rparr>"

definition monthly_rearmed :: state where
  "monthly_rearmed =
     \<lparr>jobs = [(''monthly'', monthly_job)], timers = [(''monthly'', 1)], running = [],
      clock = 2147483647,
      pending = [(1, 4294967294, Recheck ''monthly'')], next_timer = 2, trace = []\<rparr>"

text \<open>The same installation with a listener for the start event that throws.\<close>

definition throwing_env :: env where
  "throwing_env = demo_env\<lparr>start_listener_throws := (\<lambda>n inps. True)\<rparr>"

definition demo_stuck :: state where
  "demo_stuck =
     \<lparr>jobs = [(''report'', demo_job)], timers = [], running = [(''report'', 0)], clock = 0,
      pending = [], next_timer = 0, trace = [RunningSet ''report'' 0]\<rparr>"

text \<open>A registry whose first job declares both a date and a timeout.\<close>

definition broken_job :: job where
  "broken_job = demo_job\<lparr>name := ''broken'', friendlyName := JStr ''broken'',
                          interval := JUndefined, timeout := JNum 100, date := JDate 5000\<rparr>"

definition broken_state :: state where
  "broken_state =
     \<lparr>jobs = [(''broken'', broken_job), (''report'', demo_job)], timers = [], running = [],
      clock = 0, pending = [], next_timer = 0, trace = []\<rparr>"

text \<open>A configuration that lists the name \<^verbatim>\<open>a\<close> twice, and then \<^verbatim>\<open>b\<close>.\<close>

definition dup_env :: env where
  "dup_env = demo_env\<lparr>cfg_jobs := [ByName ''a'', ByName ''a'', ByName ''b'']\<rparr>"

section \<open>Objects and the in-flight table\<close>

lemma map_of_spread_rev: "map_of (spread acc src) = map_of acc ++ map_of (rev src)"
  unfolding spread_def
proof (induction src arbitrary: acc)
  case Nil
  show ?case by simp
next
  case (Cons p src)
  obtain k v where p: "p = (k, v)" by (cases p)
  have "map_of (fold (\<lambda>(a, b). AList.update a b) src (AList.update k v acc))
        = map_of (AList.update k v acc) ++ map_of (rev src)"
    by (rule Cons.IH)
  also have "\<dots> = map_of acc ++ map_of (rev ((k, v) # src))"
    by (simp add: update_conv' map_add_def fun_eq_iff split: option.splits)
  finally show ?case by (simp add: p)
qed

lemma map_of_rev_distinct: "distinct (map fst xs) \<Longrightarrow> map_of (rev xs) = map_of xs"
  by (subst map_of_inject_set) (simp_all add: rev_map [symmetric])

lemma map_of_spread:
  "distinct (map fst src) \<Longrightarrow> map_of (spread acc src) = map_of acc ++ map_of src"
  by (simp add: map_of_spread_rev map_of_rev_distinct)

lemma running_delete_gone: "map_of (running (running_delete n s)) n = None"
  by (simp add: running_delete_def delete_conv')

text \<open>
  An execution that passes both checks writes the in-flight entry; what follows depends
  on which statement, if any, fails.
\<close>

lemma executeJob_passed:
  assumes "\<not> (withoutOverlapping j \<and> map_of (running s) n \<noteq> None)" and "\<not> paused j"
  shows "executeJob E n j c s =
      (if start_listener_throws E n (merged_inputs j c)
         then (Rejected (StartListenerThrew n), running_set n (clock s) s)
       else if stringify_throws E (merged_inputs j c)
         then (Rejected (StringifyThrew n), running_set n (clock s) s)
       else if \<not> script_exists E n
         then (Rejected (ScriptNotFound n), running_delete n (running_set n (clock s) s))
       else if spawn_throws E n (buildCommandArgs E n (merged_inputs j c))
         then (Rejected (SpawnThrew n), running_set n (clock s) s)
       else (Started, spawn n (buildCommandArgs E n (merged_inputs j c))
                        (running_set n (clock s) s)))"
  using assms by (auto simp add: executeJob_def Let_def)

lemma executeJob_Started_iff:
  "fst (executeJob E n j c s) = Started \<longleftrightarrow>
     \<not> (withoutOverlapping j \<and> map_of (running s) n \<noteq> None) \<and> \<not> paused j
     \<and> starts_cleanly E n (merged_inputs j c)"
  by (auto simp add: executeJob_def Let_def starts_cleanly_def)

text \<open>The state that a started execution leaves: the entry, and then the child.\<close>

lemma executeJob_started:
  assumes "fst (executeJob E n j c s) = Started"
  shows "trace (snd (executeJob E n j c s))
           = trace s @ [RunningSet n (clock s), Spawn n (buildCommandArgs E n (merged_inputs j c))]"
    and "map_of (running (snd (executeJob E n j c s))) n = Some (clock s)"
    and "running (snd (executeJob E n j c s)) = AList.update n (clock s) (running s)"
proof -
  from assms have a: "\<not> (withoutOverlapping j \<and> map_of (running s) n \<noteq> None)" "\<not> paused j"
    and b: "starts_cleanly E n (merged_inputs j c)"
    by (simp_all add: executeJob_Started_iff)
  have e: "executeJob E n j c s
         = (Started, spawn n (buildCommandArgs E n (merged_inputs j c)) (running_set n (clock s) s))"
    using b by (simp add: executeJob_passed [OF a] starts_cleanly_def)
  show "trace (snd (executeJob E n j c s))
           = trace s @ [RunningSet n (clock s), Spawn n (buildCommandArgs E n (merged_inputs j c))]"
    by (simp add: e spawn_def running_set_def)
  show "running (snd (executeJob E n j c s)) = AList.update n (clock s) (running s)"
    by (simp add: e spawn_def running_set_def)
  then show "map_of (running (snd (executeJob E n j c s))) n = Some (clock s)"
    by (simp add: update_conv')
qed

section \<open>Overlap prevention\<close>

text \<open>
  Claim C3. A job with \<^verbatim>\<open>withoutOverlapping\<close> whose name is in the in-flight table is
  skipped with reason \<^verbatim>\<open>already_running\<close>: the promise resolves (nothing is rejected),
  and the state is the one before the call, so the in-flight table is unchanged and no
  child is spawned. Nothing is assumed about \<^verbatim>\<open>paused\<close>: the overlap test comes first.
  Manual runs and timer firings of a registered job both go through
  \<^verbatim>\<open>context.executeJob\<close> and get the same answer; the firing timer then only re-arms.
\<close>

theorem executeJob_skips_when_running:
  assumes "withoutOverlapping j" and "map_of (running s) n \<noteq> None"
  shows "executeJob E n j c s = (Skipped ''already_running'', s)
       \<and> (map_of (jobs s) n = Some j \<longrightarrow>
            context_executeJob E n c s = (Skipped ''already_running'', s)
            \<and> runJobs E (Some [n]) c s = ([Skipped ''already_running''], s)
            \<and> run_callback E (Fire n j') s
                = (if recurring j' then scheduleJob E n s else Some (Returned, s)))"
  using assms
  by (simp add: executeJob_def context_executeJob_def runJobs_def batch_names_def
        run_callback_def)

theorem executeJob_skips_when_running_witness:
  "executeJob demo_env ''report'' (demo_job\<lparr>paused := True\<rparr>) None
       (demo_state\<lparr>running := [(''report'', 5)]\<rparr>)
     = (Skipped ''already_running'', demo_state\<lparr>running := [(''report'', 5)]\<rparr>)"
  using executeJob_skips_when_running [of "demo_job\<lparr>paused := True\<rparr>"
      "demo_state\<lparr>running := [(''report'', 5)]\<rparr>" "''report''" demo_env None]
  by (simp add: demo_job_def demo_state_def minimalJob_def)

section \<open>The in-flight entry of an execution\<close>

text \<open>
  On the paths that the code handles, the in-flight entry is written before the child
  is spawned and is gone after the settlement: the \<^verbatim>\<open>exit\<close> handler (any exit code),
  the \<^verbatim>\<open>error\<close> handler and the branch for a missing script all delete it.
\<close>

lemma running_entry_on_handled_paths:
  assumes "\<not> (withoutOverlapping j \<and> map_of (running s) n \<noteq> None)" and "\<not> paused j"
  shows "(starts_cleanly E n (merged_inputs j c) \<longrightarrow>
            fst (executeJob E n j c s) = Started
            \<and> trace (snd (executeJob E n j c s))
                = trace s @ [RunningSet n (clock s), Spawn n (buildCommandArgs E n (merged_inputs j c))]
            \<and> map_of (running (snd (executeJob E n j c s))) n = Some (clock s))
       \<and> (\<not> start_listener_throws E n (merged_inputs j c)
            \<and> \<not> stringify_throws E (merged_inputs j c) \<and> \<not> script_exists E n \<longrightarrow>
            fst (executeJob E n j c s) = Rejected (ScriptNotFound n)
            \<and> trace (snd (executeJob E n j c s))
                = trace s @ [RunningSet n (clock s), RunningDelete n]
            \<and> map_of (running (snd (executeJob E n j c s))) n = None)
       \<and> (\<forall>code s'. map_of (running (snd (on_exit n code s'))) n = None)
       \<and> (\<forall>s'. map_of (running (snd (on_error n s'))) n = None)"
proof -
  have b: "\<And>code s'. map_of (running (snd (on_exit n code s'))) n = None"
    by (simp add: on_exit_def Let_def running_delete_gone)
  have c: "\<And>s'. map_of (running (snd (on_error n s'))) n = None"
    by (simp add: on_error_def running_delete_gone)
  have d: "starts_cleanly E n (merged_inputs j c) \<Longrightarrow> fst (executeJob E n j c s) = Started"
    using assms by (simp add: executeJob_Started_iff)
  have e: "\<not> start_listener_throws E n (merged_inputs j c)
            \<and> \<not> stringify_throws E (merged_inputs j c) \<and> \<not> script_exists E n \<Longrightarrow>
            fst (executeJob E n j c s) = Rejected (ScriptNotFound n)
            \<and> trace (snd (executeJob E n j c s))
                = trace s @ [RunningSet n (clock s), RunningDelete n]
            \<and> map_of (running (snd (executeJob E n j c s))) n = None"
    by (simp add: executeJob_passed [OF assms] running_delete_gone)
       (simp add: running_set_def running_delete_def)
  show ?thesis
    using b c d e executeJob_started(1,2) [of E n j c s] by blast
qed

text \<open>
  A throw of the start listener, of \<^verbatim>\<open>JSON.stringify\<close> or of \<^verbatim>\<open>spawn\<close> rejects the
  promise with the in-flight entry still in the table: no statement on these paths
  deletes it, and there is no child whose handlers could.
\<close>

lemma synchronous_throw_keeps_entry:
  assumes "\<not> (withoutOverlapping j \<and> map_of (running s) n \<noteq> None)" and "\<not> paused j"
    and "start_listener_throws E n (merged_inputs j c) \<or> stringify_throws E (merged_inputs j c)
         \<or> (script_exists E n \<and> spawn_throws E n (buildCommandArgs E n (merged_inputs j c)))"
  shows "(\<exists>e. fst (executeJob E n j c s) = Rejected e)
       \<and> snd (executeJob E n j c s) = running_set n (clock s) s
       \<and> map_of (running (snd (executeJob E n j c s))) n = Some (clock s)
       \<and> trace (snd (executeJob E n j c s)) = trace s @ [RunningSet n (clock s)]"
proof -
  have "(\<exists>e. fst (executeJob E n j c s) = Rejected e)
       \<and> snd (executeJob E n j c s) = running_set n (clock s) s"
    using assms(3) by (auto simp add: executeJob_passed [OF assms(1,2)])
  then show ?thesis
    by (simp add: running_set_def update_conv')
qed

text \<open>
  Claim C4 says that the in-flight entry is removed on every settlement path. The code
  does not do so when a listener for the start event throws. The job \<^verbatim>\<open>report\<close> is
  run once at instant 0: the promise is rejected, and the state that is left still
  holds the entry written at instant 0 and has no child. Every later dispatch of the
  job, here at instant 5000, is skipped as already running.
\<close>

theorem start_throw_leaves_job_marked:
  "executeJob throwing_env ''report'' demo_job None demo_state
     = (Rejected (StartListenerThrew ''report''), demo_stuck)
   \<and> running demo_stuck = [(''report'', 0)]
   \<and> trace demo_stuck = [RunningSet ''report'' 0]
   \<and> context_executeJob throwing_env ''report'' None (demo_stuck\<lparr>clock := 5000\<rparr>)
       = (Skipped ''already_running'', demo_stuck\<lparr>clock := 5000\<rparr>)"
  by (simp add: executeJob_def context_executeJob_def throwing_env_def demo_env_def
        demo_job_def demo_state_def demo_stuck_def running_set_def merged_inputs_def spread_def)

section \<open>Pause and resume\<close>

text \<open>
  Claim C6. A registered job that is paused, and is not already skipped for overlap, is
  skipped with reason \<^verbatim>\<open>paused\<close> and the state does not change (nothing is added to
  the trace, so no child is spawned), for a manual run as for a firing timer, which then
  only re-arms. After \<^verbatim>\<open>resumeJob\<close> the registry holds the job with
  \<^verbatim>\<open>paused = false\<close> and the next dispatch is the execution of that job: it is not
  skipped, and when nothing on the way to the child fails it is started, the in-flight
  entry is written with the current instant and the child is spawned with the merged
  inputs.
\<close>

theorem paused_job_is_skipped_until_resumed:
  assumes reg: "map_of (jobs s) n = Some j"
    and p: "paused j"
    and free: "\<not> (withoutOverlapping j \<and> map_of (running s) n \<noteq> None)"
  shows "context_executeJob E n c s = (Skipped ''paused'', s)
       \<and> runJobs E (Some [n]) c s = ([Skipped ''paused''], s)
       \<and> run_callback E (Fire n j') s
           = (if recurring j' then scheduleJob E n s else Some (Returned, s))
       \<and> fst (resumeJob n s) = True
       \<and> map_of (jobs (snd (resumeJob n s))) n = Some (j\<lparr>paused := False\<rparr>)
       \<and> context_executeJob E n c (snd (resumeJob n s))
           = executeJob E n (j\<lparr>paused := False\<rparr>) c (snd (resumeJob n s))
       \<and> (\<forall>r. fst (context_executeJob E n c (snd (resumeJob n s))) \<noteq> Skipped r)
       \<and> (starts_cleanly E n (merged_inputs j c) \<longrightarrow>
            fst (context_executeJob E n c (snd (resumeJob n s))) = Started
            \<and> trace (snd (context_executeJob E n c (snd (resumeJob n s))))
                = trace s @ [RunningSet n (clock s),
                             Spawn n (buildCommandArgs E n (merged_inputs j c))]
            \<and> running (snd (context_executeJob E n c (snd (resumeJob n s))))
                = AList.update n (clock s) (running s)
            \<and> map_of (running (snd (context_executeJob E n c (snd (resumeJob n s))))) n
                = Some (clock s))"
proof -
  define s' where "s' = snd (resumeJob n s)"
  have skip: "context_executeJob E n c s = (Skipped ''paused'', s)" for c
    using assms by (auto simp add: context_executeJob_def executeJob_def)
  have res: "resumeJob n s = (True, s\<lparr>jobs := AList.update n (j\<lparr>paused := False\<rparr>) (jobs s)\<rparr>)"
    using reg by (simp add: resumeJob_def)
  have s': "s' = s\<lparr>jobs := AList.update n (j\<lparr>paused := False\<rparr>) (jobs s)\<rparr>"
    by (simp add: s'_def res)
  have reg': "map_of (jobs s') n = Some (j\<lparr>paused := False\<rparr>)"
    by (simp add: s' update_conv')
  have free': "\<not> (withoutOverlapping (j\<lparr>paused := False\<rparr>) \<and> map_of (running s') n \<noteq> None)"
    using free by (simp add: s')
  have np: "\<not> paused (j\<lparr>paused := False\<rparr>)"
    by simp
  have m: "merged_inputs (j\<lparr>paused := False\<rparr>) c = merged_inputs j c"
    by (simp add: merged_inputs_def)
  have fr: "clock s' = clock s" "trace s' = trace s" "running s' = running s"
    by (simp_all add: s')
  have go: "context_executeJob E n c s' = executeJob E n (j\<lparr>paused := False\<rparr>) c s'"
    by (simp add: context_executeJob_def reg')
  have ns: "fst (executeJob E n (j\<lparr>paused := False\<rparr>) c s') \<noteq> Skipped r" for r
    by (simp add: executeJob_passed [OF free' np])
  have st: "fst (executeJob E n (j\<lparr>paused := False\<rparr>) c s') = Started"
    if "starts_cleanly E n (merged_inputs j c)"
    using that free' by (simp add: executeJob_Started_iff m)
  have cb: "run_callback E (Fire n j') s
           = (if recurring j' then scheduleJob E n s else Some (Returned, s))"
    by (simp add: run_callback_def skip)
  have rj: "runJobs E (Some [n]) c s = ([Skipped ''paused''], s)"
    by (simp add: runJobs_def batch_names_def skip)
  have f: "fst (resumeJob n s) = True"
    by (simp add: res)
  have clean: "fst (context_executeJob E n c s') = Started
            \<and> trace (snd (context_executeJob E n c s'))
                = trace s @ [RunningSet n (clock s),
                             Spawn n (buildCommandArgs E n (merged_inputs j c))]
            \<and> running (snd (context_executeJob E n c s')) = AList.update n (clock s) (running s)
            \<and> map_of (running (snd (context_executeJob E n c s'))) n = Some (clock s)"
    if "starts_cleanly E n (merged_inputs j c)"
    using executeJob_started [OF st [OF that]] st [OF that]
    by (simp add: go m fr)
  show ?thesis
    using skip rj cb f reg' go ns clean unfolding s'_def by metis
qed

theorem paused_job_is_skipped_until_resumed_witness:
  "context_executeJob demo_env ''report'' None
      (demo_state\<lparr>jobs := [(''report'', demo_job\<lparr>paused := True\<rparr>)]\<rparr>)
     = (Skipped ''paused'', demo_state\<lparr>jobs := [(''report'', demo_job\<lparr>paused := True\<rparr>)]\<rparr>)
   \<and> resumeJob ''report'' (demo_state\<lparr>jobs := [(''report'', demo_job\<lparr>paused := True\<rparr>)]\<rparr>)
       = (True, demo_state)
   \<and> context_executeJob demo_env ''report'' None demo_state
       = (Started,
          demo_state\<lparr>running := [(''report'', 0)],
                      trace := [RunningSet ''report'' 0, Spawn ''report'' [''run'', ''report'']]\<rparr>)"
  using paused_job_is_skipped_until_resumed
     [of "demo_state\<lparr>jobs := [(''report'', demo_job\<lparr>paused := True\<rparr>)]\<rparr>" "''report''"
         "demo_job\<lparr>paused := True\<rparr>" demo_env None]
  by (simp add: demo_state_def demo_env_def demo_job_def resumeJob_def
        context_executeJob_def executeJob_def running_set_def spawn_def buildCommandArgs_def
        merged_inputs_def spread_def starts_cleanly_def stringify_throws_def)

section \<open>The inputs of the child\<close>

text \<open>
  Claim C8. An execution that starts spawns the child with the arguments built from
  the merge of the job's \<^verbatim>\<open>inputs\<close>, then its \<^verbatim>\<open>scriptInputs\<close>, then the caller's
  inputs; a later layer overrides the keys of an earlier one (objects have no repeated
  keys). With base inputs \<^verbatim>\<open>{x: 0, y: 2}\<close>, no script inputs and custom inputs
  \<^verbatim>\<open>{x: 1}\<close> the merge is \<^verbatim>\<open>{x: 1, y: 2}\<close>.
\<close>

theorem sink_receives_merged_inputs:
  assumes "fst (executeJob E n j (Some custom) s) = Started"
    and "distinct (map fst (inputs j))" and "distinct (map fst (scriptInputs j))"
    and "distinct (map fst custom)"
  shows "trace (snd (executeJob E n j (Some custom) s))
           = trace s @ [RunningSet n (clock s),
                        Spawn n (buildCommandArgs E n (merged_inputs j (Some custom)))]
       \<and> map_of (merged_inputs j (Some custom))
           = map_of (inputs j) ++ map_of (scriptInputs j) ++ map_of custom
       \<and> merged_inputs (j\<lparr>inputs := [(''x'', JNum 0), (''y'', JNum 2)], scriptInputs := []\<rparr>)
                       (Some [(''x'', JNum 1)])
           = [(''x'', JNum 1), (''y'', JNum 2)]"
proof -
  have "map_of (merged_inputs j (Some custom))
           = map_of (inputs j) ++ map_of (scriptInputs j) ++ map_of custom"
    using assms(2-4) by (simp add: merged_inputs_def map_of_spread)
  moreover have "merged_inputs (j\<lparr>inputs := [(''x'', JNum 0), (''y'', JNum 2)], scriptInputs := []\<rparr>)
                       (Some [(''x'', JNum 1)])
           = [(''x'', JNum 1), (''y'', JNum 2)]"
    by (simp add: merged_inputs_def spread_def)
  ultimately show ?thesis
    using executeJob_started(1) [OF assms(1)] by simp
qed

theorem sink_receives_merged_inputs_witness:
  "fst (executeJob demo_env ''report''
                 (demo_job\<lparr>inputs := [(''x'', JNum 0), (''y'', JNum 2)]\<rparr>)
                 (Some [(''x'', JNum 1)]) demo_state) = Started
   \<and> trace (snd (executeJob demo_env ''report''
                 (demo_job\<lparr>inputs := [(''x'', JNum 0), (''y'', JNum 2)]\<rparr>)
                 (Some [(''x'', JNum 1)]) demo_state))
     = [RunningSet ''report'' 0, Spawn ''report'' [''run'', ''report'', ''--x=1'', ''--y=2'']]"
  using sink_receives_merged_inputs
     [of demo_env "''report''" "demo_job\<lparr>inputs := [(''x'', JNum 0), (''y'', JNum 2)]\<rparr>"
         "[(''x'', JNum 1)]" demo_state]
  by (simp add: demo_state_def demo_env_def demo_job_def buildCommandArgs_def
        merged_inputs_def spread_def executeJob_def spawn_def running_set_def
        stringify_throws_def)

section \<open>Names that are not registered\<close>

text \<open>
  Claim C10. For a name that is not in the registry, \<^verbatim>\<open>context.executeJob\<close> runs the
  executor on the minimal job, whose \<^verbatim>\<open>withoutOverlapping\<close> is false and whose inputs
  are empty. The call is never skipped, whatever the in-flight table holds: when
  nothing throws on the way, it spawns the script of that name, and is rejected as not
  found only when the script file does not exist.
\<close>

theorem unregistered_name_runs_as_minimal_job:
  assumes "map_of (jobs s) n = None"
  shows "context_executeJob E n c s = executeJob E n (minimalJob n) c s
       \<and> withoutOverlapping (minimalJob n) = False
       \<and> inputs (minimalJob n) = []
       \<and> (\<forall>r. fst (context_executeJob E n c s) \<noteq> Skipped r)
       \<and> (\<not> start_listener_throws E n (merged_inputs (minimalJob n) c)
            \<and> \<not> stringify_throws E (merged_inputs (minimalJob n) c)
            \<and> \<not> spawn_throws E n (buildCommandArgs E n (merged_inputs (minimalJob n) c)) \<longrightarrow>
          context_executeJob E n c s
           = (if script_exists E n
              then (Started, spawn n (buildCommandArgs E n (merged_inputs (minimalJob n) c))
                               (running_set n (clock s) s))
              else (Rejected (ScriptNotFound n), running_delete n (running_set n (clock s) s))))
       \<and> (fst (context_executeJob E n c s) = Rejected (ScriptNotFound n) \<longrightarrow> \<not> script_exists E n)
       \<and> (fst (context_executeJob E n c s) = Started \<longrightarrow>
            trace (snd (context_executeJob E n c s))
              = trace s @ [RunningSet n (clock s),
                           Spawn n (buildCommandArgs E n (merged_inputs (minimalJob n) c))])"
proof -
  have a: "context_executeJob E n c s = executeJob E n (minimalJob n) c s"
    using assms by (simp add: context_executeJob_def)
  have b: "\<not> (withoutOverlapping (minimalJob n) \<and> map_of (running s) n \<noteq> None)"
    by (simp add: minimalJob_def)
  have c: "\<not> paused (minimalJob n)"
    by (simp add: minimalJob_def)
  note e = executeJob_passed [OF b c, of E c]
  have d: "withoutOverlapping (minimalJob n) = False" "inputs (minimalJob n) = []"
    by (simp_all add: minimalJob_def)
  have ns: "\<forall>r. fst (context_executeJob E n c s) \<noteq> Skipped r"
    by (simp add: a e)
  have nf: "fst (context_executeJob E n c s) = Rejected (ScriptNotFound n) \<longrightarrow> \<not> script_exists E n"
    by (simp add: a e)
  have tr: "fst (context_executeJob E n c s) = Started \<longrightarrow>
            trace (snd (context_executeJob E n c s))
              = trace s @ [RunningSet n (clock s),
                           Spawn n (buildCommandArgs E n (merged_inputs (minimalJob n) c))]"
    using executeJob_started(1) [of E n "minimalJob n" c s] by (simp add: a)
  have eq: "\<not> start_listener_throws E n (merged_inputs (minimalJob n) c)
            \<and> \<not> stringify_throws E (merged_inputs (minimalJob n) c)
            \<and> \<not> spawn_throws E n (buildCommandArgs E n (merged_inputs (minimalJob n) c)) \<longrightarrow>
          context_executeJob E n c s
           = (if script_exists E n
              then (Started, spawn n (buildCommandArgs E n (merged_inputs (minimalJob n) c))
                               (running_set n (clock s) s))
              else (Rejected (ScriptNotFound n), running_delete n (running_set n (clock s) s)))"
    by (simp add: a e)
  from a d ns nf tr eq show ?thesis
    by blast
qed

theorem unregistered_name_runs_as_minimal_job_witness:
  "context_executeJob demo_env ''report'' (Some [(''x'', JNum 1)])
      (demo_state\<lparr>jobs := [], running := [(''report'', 7)]\<rparr>)
    = (Started,
       demo_state\<lparr>jobs := [], running := [(''report'', 0)],
                   trace := [RunningSet ''report'' 0, Spawn ''report'' [''run'', ''report'', ''--x=1'']]\<rparr>)"
  using unregistered_name_runs_as_minimal_job
     [of "demo_state\<lparr>jobs := [], running := [(''report'', 7)]\<rparr>" "''report''" demo_env
         "Some [(''x'', JNum 1)]"]
  by (simp add: demo_state_def demo_env_def spawn_def running_set_def buildCommandArgs_def
        merged_inputs_def spread_def minimalJob_def context_executeJob_def executeJob_def
        stringify_throws_def)

section \<open>When \<^verbatim>\<open>scheduleJob\<close> returns\<close>

text \<open>
  Neither \<^verbatim>\<open>stopJob\<close> nor an execution changes the registry or the clock, so a call
  that takes the catch-up branch for a recurring job takes it again, at every depth:
  such a call never returns. Every other call is straight-line code.
\<close>

lemma stopJob_frame [simp]:
  "clock (stopJob n s) = clock s" "jobs (stopJob n s) = jobs s"
  "running (stopJob n s) = running s" "trace (stopJob n s) = trace s"
  "next_timer (stopJob n s) = next_timer s"
  by (simp_all add: stopJob_def clearTimeout_def clearInterval_def Let_def split: option.splits)

lemma executeJob_frame [simp]:
  "clock (snd (executeJob E n j c s)) = clock s" "jobs (snd (executeJob E n j c s)) = jobs s"
  "timers (snd (executeJob E n j c s)) = timers s" "pending (snd (executeJob E n j c s)) = pending s"
  "next_timer (snd (executeJob E n j c s)) = next_timer s"
  by (simp_all add: executeJob_def running_set_def running_delete_def spawn_def Let_def)

lemma context_executeJob_frame [simp]:
  "clock (snd (context_executeJob E n c s)) = clock s"
  "jobs (snd (context_executeJob E n c s)) = jobs s"
  "timers (snd (context_executeJob E n c s)) = timers s"
  "pending (snd (context_executeJob E n c s)) = pending s"
  "next_timer (snd (context_executeJob E n c s)) = next_timer s"
  by (simp_all add: context_executeJob_def split: option.splits)

lemma overdue_recurring_persists:
  "overdue_recurring E n (snd (context_executeJob E n c (stopJob n s))) = overdue_recurring E n s"
  by (simp add: overdue_recurring_def cong: option.case_cong sum.case_cong)

lemma scheduleJob_returns_not_overdue:
  assumes "scheduleJob E n s = Some y"
  shows "\<not> overdue_recurring E n s"
  using assms
proof (induct rule: scheduleJob.raw_induct [rotated, consumes 1, case_names body])
  case (body f E n s y)
  note ih = body(1) and eq = body(2)
  show ?case
  proof
    assume od: "overdue_recurring E n s"
    then obtain j t where j: "map_of (jobs s) n = Some j" "recurring j"
      and t: "getNextRunTime E j (clock s) = Inr (Some t)" "t \<le> clock s"
      by (auto simp add: overdue_recurring_def split: option.splits sum.splits)
    from eq j t
    have a: "f E n (snd (context_executeJob E n None (stopJob n s))) = Some y"
      by simp
    have "\<not> overdue_recurring E n (snd (context_executeJob E n None (stopJob n s)))"
      by (rule ih [OF a])
    with od show False
      by (simp add: overdue_recurring_persists)
  qed
qed

lemma scheduleJob_overdue_diverges:
  "overdue_recurring E n s \<Longrightarrow> scheduleJob E n s = None"
  using scheduleJob_returns_not_overdue [of E n s] by (cases "scheduleJob E n s") auto

lemma scheduleJob_unregistered:
  "map_of (jobs s) n = None \<Longrightarrow> scheduleJob E n s = Some (Returned, s)"
  by (subst scheduleJob.simps) simp

lemma scheduleJob_throws:
  "map_of (jobs s) n = Some j \<Longrightarrow> getNextRunTime E j (clock s) = Inl e \<Longrightarrow>
   scheduleJob E n s = Some (Threw e, stopJob n s)"
  by (subst scheduleJob.simps) simp

lemma scheduleJob_no_schedule:
  "map_of (jobs s) n = Some j \<Longrightarrow> getNextRunTime E j (clock s) = Inr None \<Longrightarrow>
   scheduleJob E n s = Some (Returned, stopJob n s)"
  by (subst scheduleJob.simps) simp

lemma scheduleJob_catch_up_once:
  "map_of (jobs s) n = Some j \<Longrightarrow> getNextRunTime E j (clock s) = Inr (Some t) \<Longrightarrow>
   t \<le> clock s \<Longrightarrow> \<not> recurring j \<Longrightarrow>
   scheduleJob E n s = Some (Returned, snd (context_executeJob E n None (stopJob n s)))"
  by (subst scheduleJob.simps) simp

lemma scheduleJob_intermediate:
  "map_of (jobs s) n = Some j \<Longrightarrow> getNextRunTime E j (clock s) = Inr (Some t) \<Longrightarrow>
   t - clock s > MAX_SAFE_TIMEOUT \<Longrightarrow>
   scheduleJob E n s = Some (Returned, arm n (Recheck n) MAX_SAFE_TIMEOUT (stopJob n s))"
  by (subst scheduleJob.simps) (simp add: MAX_SAFE_TIMEOUT_def)

lemma scheduleJob_arms:
  "map_of (jobs s) n = Some j \<Longrightarrow> getNextRunTime E j (clock s) = Inr (Some t) \<Longrightarrow>
   clock s < t \<Longrightarrow> t - clock s \<le> MAX_SAFE_TIMEOUT \<Longrightarrow>
   scheduleJob E n s = Some (Returned, arm n (Fire n j) (t - clock s) (stopJob n s))"
  by (subst scheduleJob.simps) (simp add: MAX_SAFE_TIMEOUT_def)

text \<open>Every returning call is one of the straight-line cases.\<close>

lemma scheduleJob_cases:
  assumes "scheduleJob E n s = Some (r, s')"
  obtains
    (unregistered) "map_of (jobs s) n = None" "r = Returned" "s' = s"
  | (throws) j e where "map_of (jobs s) n = Some j" "getNextRunTime E j (clock s) = Inl e"
      "r = Threw e" "s' = stopJob n s"
  | (no_schedule) j where "map_of (jobs s) n = Some j" "getNextRunTime E j (clock s) = Inr None"
      "r = Returned" "s' = stopJob n s"
  | (catch_up) j t where "map_of (jobs s) n = Some j" "getNextRunTime E j (clock s) = Inr (Some t)"
      "t \<le> clock s" "\<not> recurring j" "r = Returned"
      "s' = snd (context_executeJob E n None (stopJob n s))"
  | (intermediate) j t where "map_of (jobs s) n = Some j"
      "getNextRunTime E j (clock s) = Inr (Some t)" "t - clock s > MAX_SAFE_TIMEOUT"
      "r = Returned" "s' = arm n (Recheck n) MAX_SAFE_TIMEOUT (stopJob n s)"
  | (arms) j t where "map_of (jobs s) n = Some j"
      "getNextRunTime E j (clock s) = Inr (Some t)" "clock s < t" "t - clock s \<le> MAX_SAFE_TIMEOUT"
      "r = Returned" "s' = arm n (Fire n j) (t - clock s) (stopJob n s)"
proof (cases "map_of (jobs s) n")
  case None
  with assms scheduleJob_unregistered [OF None, of E] show ?thesis
    by (auto intro: unregistered)
next
  case (Some j)
  note nod = scheduleJob_returns_not_overdue [OF assms]
  show ?thesis
  proof (cases "getNextRunTime E j (clock s)")
    case (Inl e)
    with assms Some scheduleJob_throws [OF Some Inl] show ?thesis
      by (auto intro: throws)
  next
    case (Inr ot)
    show ?thesis
    proof (cases ot)
      case None
      with assms Some Inr scheduleJob_no_schedule [OF Some, of E] show ?thesis
        by (auto intro: no_schedule)
    next
      case Some2: (Some t)
      have g: "getNextRunTime E j (clock s) = Inr (Some t)"
        using Inr Some2 by simp
      consider "t \<le> clock s" | "t - clock s > MAX_SAFE_TIMEOUT"
        | "clock s < t" "t - clock s \<le> MAX_SAFE_TIMEOUT"
        by linarith
      then show ?thesis
      proof cases
        case 1
        with nod Some g have "\<not> recurring j"
          by (simp add: overdue_recurring_def)
        with assms scheduleJob_catch_up_once [OF Some g 1] show ?thesis
          by (auto intro: catch_up [OF Some g 1])
      next
        case 2
        with assms scheduleJob_intermediate [OF Some g 2] show ?thesis
          by (auto intro: intermediate [OF Some g 2])
      next
        case 3
        with assms scheduleJob_arms [OF Some g 3] show ?thesis
          by (auto intro: arms [OF Some g 3])
      qed
    qed
  qed
qed

section \<open>The invariant of the timer table\<close>

lemma filter_le_one:
  "distinct (map fst xs) \<Longrightarrow> \<forall>p \<in> set xs. P p \<longrightarrow> fst p = t \<Longrightarrow> length (filter P xs) \<le> 1"
proof (induction xs)
  case Nil
  show ?case by simp
next
  case (Cons x xs)
  show ?case
  proof (cases "P x")
    case True
    have "filter P xs = []"
    proof (rule ccontr)
      assume "filter P xs \<noteq> []"
      then obtain y where y: "y \<in> set xs" "P y"
        by (auto simp add: filter_empty_conv)
      with Cons.prems(2) True have "fst y = fst x" by simp
      moreover from y(1) have "fst y \<in> fst ` set xs" by simp
      ultimately show False using Cons.prems(1) by simp
    qed
    with True show ?thesis by simp
  next
    case False
    with Cons show ?thesis by simp
  qed
qed

lemma timers_ok_lookup:
  assumes "timers_ok s" and "p \<in> set (pending s)"
  shows "map_of (timers s) (cb_name (snd (snd p))) = Some (fst p)"
  using assms by (auto simp add: timers_ok_def)

lemma timers_ok_issued:
  assumes "timers_ok s" and "p \<in> set (pending s)"
  shows "fst p < next_timer s"
  using assms by (fastforce simp add: timers_ok_def)

lemma live_timers_le_one:
  assumes "timers_ok s"
  shows "length (live_timers n s) \<le> 1"
proof (cases "map_of (timers s) n")
  case None
  have "live_timers n s = []"
    using timers_ok_lookup [OF assms] None
    by (auto simp add: live_timers_def filter_empty_conv)
  then show ?thesis by simp
next
  case (Some t)
  have "distinct (map fst (pending s))"
    using assms by (simp add: timers_ok_def)
  moreover have "\<forall>p \<in> set (pending s). cb_name (snd (snd p)) = n \<longrightarrow> fst p = t"
    using timers_ok_lookup [OF assms] Some by auto
  ultimately show ?thesis
    unfolding live_timers_def by (rule filter_le_one)
qed

lemma stopJob_eq:
  "stopJob n s =
     (case map_of (timers s) n of
        Some t \<Rightarrow> s\<lparr>pending := AList.delete t (pending s), timers := AList.delete n (timers s)\<rparr>
      | None \<Rightarrow> s)"
  by (simp add: stopJob_def clearTimeout_def clearInterval_def Let_def AList.delete_eq
        split: option.splits)

lemma stopJob_table: "map_of (timers (stopJob n s)) n = None"
  by (simp add: stopJob_eq delete_conv' split: option.splits)

lemma stopJob_other: "m \<noteq> n \<Longrightarrow> map_of (timers (stopJob n s)) m = map_of (timers s) m"
  by (simp add: stopJob_eq delete_conv' split: option.splits)

lemma stopJob_idem: "stopJob n (stopJob n s) = stopJob n s"
  using stopJob_table [of n s] by (subst stopJob_eq) simp

lemma set_delete_subset: "set (AList.delete k xs) \<subseteq> set xs"
  by (auto simp add: AList.delete_eq)

lemma distinct_snd_delete: "distinct (map snd xs) \<Longrightarrow> distinct (map snd (AList.delete k xs))"
  by (simp add: AList.delete_eq distinct_map_filter)

lemma timers_ok_stopJob:
  assumes "timers_ok s"
  shows "timers_ok (stopJob n s)"
proof (cases "map_of (timers s) n")
  case None
  then show ?thesis using assms by (simp add: stopJob_eq)
next
  case (Some t)
  have kept: "(cb_name (snd (snd p)), fst p) \<in> set (AList.delete n (timers s))"
    if p: "p \<in> set (AList.delete t (pending s))" for p
  proof -
    from p have pin: "p \<in> set (pending s)" and ne: "fst p \<noteq> t"
      by (auto simp add: AList.delete_eq)
    from timers_ok_lookup [OF assms pin] ne Some have "cb_name (snd (snd p)) \<noteq> n"
      by auto
    moreover from assms pin have "(cb_name (snd (snd p)), fst p) \<in> set (timers s)"
      by (auto simp add: timers_ok_def)
    ultimately show ?thesis by (auto simp add: AList.delete_eq)
  qed
  have "distinct (map fst (AList.delete n (timers s)))"
    "distinct (map snd (AList.delete n (timers s)))"
    "distinct (map fst (AList.delete t (pending s)))"
    "\<forall>e \<in> set (AList.delete n (timers s)). snd e < next_timer s"
    using assms set_delete_subset [of n "timers s"]
    by (auto simp add: timers_ok_def distinct_delete distinct_snd_delete)
  with kept show ?thesis
    by (simp add: stopJob_eq Some timers_ok_def)
qed

lemma live_timers_stopJob:
  assumes "timers_ok s"
  shows "live_timers n (stopJob n s) = []"
proof -
  have "timers_ok (stopJob n s)" using assms by (rule timers_ok_stopJob)
  from timers_ok_lookup [OF this] show ?thesis
    using stopJob_table [of n s]
    by (auto simp add: live_timers_def filter_empty_conv)
qed

lemma arm_eq:
  "arm n cb d s =
     s\<lparr>pending := pending s @ [(next_timer s,
                                 clock s + (if d < 1 \<or> d > 2147483647 then 1 else d), cb)],
       next_timer := Suc (next_timer s),
       timers := AList.update n (next_timer s) (timers s)\<rparr>"
  by (simp add: arm_def setTimeout_def Let_def)

lemma set_update_subset: "set (AList.update k v al) \<subseteq> insert (k, v) (set al)"
  by (induction al) auto

lemma update_has_new: "(k, v) \<in> set (AList.update k v al)"
  by (induction al) auto

lemma update_keeps_other: "k' \<noteq> k \<Longrightarrow> (k', v') \<in> set al \<Longrightarrow> (k', v') \<in> set (AList.update k v al)"
  by (induction al) auto

lemma distinct_snd_update:
  "distinct (map snd al) \<Longrightarrow> v \<notin> snd ` set al \<Longrightarrow> distinct (map snd (AList.update k v al))"
proof (induction al)
  case Nil
  show ?case by simp
next
  case (Cons e al)
  have "snd ` set (AList.update k v al) \<subseteq> insert v (snd ` set al)"
    using set_update_subset [of k v al] by force
  with Cons show ?case by (auto simp add: image_iff)
qed

lemma timers_ok_arm:
  assumes ok: "timers_ok s" and none: "live_timers n s = []" and cb: "cb_name cb = n"
  shows "timers_ok (arm n cb d s)"
proof -
  have fresh_p: "next_timer s \<notin> fst ` set (pending s)"
    using timers_ok_issued [OF ok] by force
  have fresh_t: "next_timer s \<notin> snd ` set (timers s)"
    using ok by (force simp add: timers_ok_def)
  have other: "cb_name (snd (snd p)) \<noteq> n" if "p \<in> set (pending s)" for p
    using none that by (auto simp add: live_timers_def filter_empty_conv)
  have a: "distinct (map fst (AList.update n (next_timer s) (timers s)))"
    using ok by (simp add: timers_ok_def distinct_update)
  have b: "distinct (map snd (AList.update n (next_timer s) (timers s)))"
    using ok fresh_t by (simp add: timers_ok_def distinct_snd_update)
  have c: "\<forall>e \<in> set (AList.update n (next_timer s) (timers s)). snd e < Suc (next_timer s)"
    using ok set_update_subset [of n "next_timer s" "timers s"]
    by (fastforce simp add: timers_ok_def less_Suc_eq)
  have d: "distinct (map fst (pending s @ [(next_timer s, x, cb)]))" for x
    using ok fresh_p by (simp add: timers_ok_def)
  have e: "(cb_name (snd (snd p)), fst p) \<in> set (AList.update n (next_timer s) (timers s))"
    if "p \<in> set (pending s)" for p
    using ok that other [OF that] by (auto simp add: timers_ok_def intro: update_keeps_other)
  show ?thesis
    using a b c d e cb by (auto simp add: arm_eq timers_ok_def update_has_new)
qed

lemma timers_ok_frame:
  "timers s' = timers s \<Longrightarrow> pending s' = pending s \<Longrightarrow> next_timer s' = next_timer s \<Longrightarrow>
   timers_ok s' = timers_ok s"
  by (simp add: timers_ok_def)

lemma live_timers_frame:
  "pending s' = pending s \<Longrightarrow> live_timers n s' = live_timers n s"
  by (simp add: live_timers_def)

lemma timers_ok_context_executeJob:
  "timers_ok (snd (context_executeJob E n c s)) = timers_ok s"
  by (rule timers_ok_frame) simp_all

lemma timers_ok_scheduleJob:
  assumes "timers_ok s" and "scheduleJob E n s = Some (r, s')"
  shows "timers_ok s'"
  using assms(2)
proof (cases rule: scheduleJob_cases)
  case unregistered
  with assms show ?thesis by simp
next
  case (throws j e)
  with assms show ?thesis by (simp add: timers_ok_stopJob)
next
  case (no_schedule j)
  with assms show ?thesis by (simp add: timers_ok_stopJob)
next
  case (catch_up j t)
  with assms show ?thesis by (simp add: timers_ok_context_executeJob timers_ok_stopJob)
next
  case (intermediate j t)
  with assms show ?thesis
    by (simp add: timers_ok_arm timers_ok_stopJob live_timers_stopJob)
next
  case (arms j t)
  with assms show ?thesis
    by (simp add: timers_ok_arm timers_ok_stopJob live_timers_stopJob)
qed

lemma timers_ok_delete_pending:
  assumes "timers_ok s"
  shows "timers_ok (s\<lparr>clock := at, pending := AList.delete t (pending s)\<rparr>)"
  using assms set_delete_subset [of t "pending s"]
  by (auto simp add: timers_ok_def distinct_delete)

lemma timers_ok_run_callback:
  assumes "timers_ok s" and "run_callback E cb s = Some (r, s')"
  shows "timers_ok s'"
proof (cases cb)
  case (Recheck n)
  with assms show ?thesis
    by (auto simp add: run_callback_def intro: timers_ok_scheduleJob)
next
  case (Fire n j)
  show ?thesis
  proof (cases "recurring j")
    case True
    with assms Fire
    have "scheduleJob E n (snd (context_executeJob E n None s)) = Some (r, s')"
      by (simp add: run_callback_def)
    moreover have "timers_ok (snd (context_executeJob E n None s))"
      using assms(1) by (simp add: timers_ok_context_executeJob)
    ultimately show ?thesis by (rule timers_ok_scheduleJob [rotated])
  next
    case False
    with assms Fire show ?thesis
      by (auto simp add: run_callback_def timers_ok_context_executeJob)
  qed
qed

lemma timers_ok_timer_fires:
  assumes "timers_ok s" and "timer_fires E t at s = Some (r, s')"
  shows "timers_ok s'"
proof (cases "map_of (pending s) t")
  case None
  with assms show ?thesis by (simp add: timer_fires_def)
next
  case (Some dc)
  obtain due cb where dc: "dc = (due, cb)" by (cases dc)
  from assms(2) Some dc
  have "run_callback E cb (s\<lparr>clock := at, pending := AList.delete t (pending s)\<rparr>) = Some (r, s')"
    by (simp add: timer_fires_def)
  with timers_ok_delete_pending [OF assms(1)] show ?thesis
    by (rule timers_ok_run_callback)
qed

lemma timers_ok_schedule_each:
  "timers_ok s \<Longrightarrow> schedule_each E ns s = Some (r, s') \<Longrightarrow> timers_ok s'"
proof (induction ns arbitrary: s)
  case Nil
  then show ?case by simp
next
  case (Cons n ns)
  from Cons.prems(2) obtain r1 s1 where s1: "scheduleJob E n s = Some (r1, s1)"
    by (cases "scheduleJob E n s") auto
  have ok1: "timers_ok s1"
    using Cons.prems(1) s1 by (rule timers_ok_scheduleJob)
  show ?case
  proof (cases r1)
    case Returned
    with Cons.prems(2) s1 have "schedule_each E ns s1 = Some (r, s')" by simp
    with ok1 show ?thesis by (rule Cons.IH)
  next
    case (Threw e)
    with Cons.prems(2) s1 ok1 show ?thesis by simp
  qed
qed

lemma timers_ok_fold_stopJob: "timers_ok s \<Longrightarrow> timers_ok (fold stopJob ns s)"
  by (induction ns arbitrary: s) (simp_all add: timers_ok_stopJob)

lemma run_each_frame:
  "timers (snd (run_each E ns c s)) = timers s \<and> pending (snd (run_each E ns c s)) = pending s
   \<and> next_timer (snd (run_each E ns c s)) = next_timer s"
proof (induction ns arbitrary: s)
  case Nil
  show ?case by simp
next
  case (Cons n ns)
  show ?case
    using Cons.IH [of "snd (context_executeJob E n c s)"]
    by (simp add: split_beta Let_def)
qed

lemma addJobDefinition_frame [simp]:
  "timers (snd (addJobDefinition E d s)) = timers s"
  "pending (snd (addJobDefinition E d s)) = pending s"
  "next_timer (snd (addJobDefinition E d s)) = next_timer s"
  "clock (snd (addJobDefinition E d s)) = clock s"
  "running (snd (addJobDefinition E d s)) = running s"
  "trace (snd (addJobDefinition E d s)) = trace s"
  by (simp_all add: addJobDefinition_def Let_def split: option.splits)

lemma load_config_jobs_frame:
  "timers (snd (load_config_jobs E es seen s)) = timers s
   \<and> pending (snd (load_config_jobs E es seen s)) = pending s
   \<and> next_timer (snd (load_config_jobs E es seen s)) = next_timer s"
proof (induction es arbitrary: seen s)
  case Nil
  show ?case by simp
next
  case (Cons e es)
  show ?case
    by (simp add: Let_def Cons.IH)
qed

lemma load_script_jobs_frame:
  "timers (load_script_jobs E ss s) = timers s
   \<and> pending (load_script_jobs E ss s) = pending s
   \<and> next_timer (load_script_jobs E ss s) = next_timer s"
proof (induction ss arbitrary: s)
  case Nil
  show ?case by simp
next
  case (Cons p ss)
  obtain f sd where p: "p = (f, sd)" by (cases p)
  show ?case
    by (simp add: p Cons.IH split: option.splits)
qed

lemma loadJobs_frame:
  "timers (snd (loadJobs E s)) = timers s \<and> pending (snd (loadJobs E s)) = pending s
   \<and> next_timer (snd (loadJobs E s)) = next_timer s"
proof (cases "load_config_jobs E (cfg_jobs E) [] s")
  case (Pair r s1)
  with load_config_jobs_frame [of E "cfg_jobs E" "[]" s] load_script_jobs_frame [of E "scripts E" s1]
  show ?thesis
    by (cases r) (simp_all add: loadJobs_def)
qed

lemma removeJob_eq: "snd (removeJob n s) = (stopJob n s)\<lparr>jobs := AList.delete n (jobs s)\<rparr>"
  by (simp add: removeJob_def stopJob_def Let_def clearTimeout_def clearInterval_def
        split: option.splits)

lemma timers_ok_step:
  assumes "timers_ok s" and "step E ev s = Some s'"
  shows "timers_ok s'"
proof (cases ev)
  case Load
  with assms(2) have "s' = snd (loadJobs E s)" by (simp add: step_def)
  with loadJobs_frame [of E s] have "timers_ok s' = timers_ok s"
    by (intro timers_ok_frame) simp_all
  with assms(1) show ?thesis by simp
next
  case (Add d)
  with assms(2) have "timers_ok s' = timers_ok s"
    by (intro timers_ok_frame) (auto simp add: step_def)
  with assms(1) show ?thesis by simp
next
  case (Remove n)
  with assms(2) have "timers_ok s' = timers_ok (stopJob n s)"
    by (intro timers_ok_frame) (auto simp add: step_def removeJob_eq)
  with assms(1) show ?thesis by (simp add: timers_ok_stopJob)
next
  case (Schedule n)
  with assms show ?thesis
    by (auto simp add: step_def dest: timers_ok_scheduleJob)
next
  case (Stop n)
  with assms show ?thesis by (auto simp add: step_def timers_ok_stopJob)
next
  case (StartAll ns)
  with assms show ?thesis
    by (auto simp add: step_def startJobs_def dest: timers_ok_schedule_each)
next
  case (StopAll ns)
  with assms show ?thesis by (auto simp add: step_def stopJobs_def timers_ok_fold_stopJob)
next
  case (Run ns inps)
  with assms(2) have "timers_ok s' = timers_ok s"
    by (intro timers_ok_frame) (auto simp add: step_def runJobs_def run_each_frame)
  with assms(1) show ?thesis by simp
next
  case (Pause n)
  with assms(2) have "timers_ok s' = timers_ok s"
    by (intro timers_ok_frame) (auto simp add: step_def pauseJob_def split: option.splits)
  with assms(1) show ?thesis by simp
next
  case (Resume n)
  with assms(2) have "timers_ok s' = timers_ok s"
    by (intro timers_ok_frame) (auto simp add: step_def resumeJob_def split: option.splits)
  with assms(1) show ?thesis by simp
next
  case (TimerFires t at)
  with assms show ?thesis
    by (auto simp add: step_def dest: timers_ok_timer_fires)
next
  case (ChildExit n code)
  with assms(2) have "timers_ok s' = timers_ok s"
    by (intro timers_ok_frame) (auto simp add: step_def on_exit_def running_delete_def Let_def)
  with assms(1) show ?thesis by simp
next
  case (ChildError n)
  with assms(2) have "timers_ok s' = timers_ok s"
    by (intro timers_ok_frame) (auto simp add: step_def on_error_def running_delete_def)
  with assms(1) show ?thesis by simp
next
  case (ClockMoves at)
  with assms(2) have "timers_ok s' = timers_ok s"
    by (intro timers_ok_frame) (auto simp add: step_def)
  with assms(1) show ?thesis by simp
qed

lemma reachable_timers_ok: "reachable E s \<Longrightarrow> timers_ok s"
proof (induction rule: reachable.induct)
  case (reach_init t0)
  show ?case by (simp add: initial_state_def timers_ok_def)
next
  case (reach_step s ev s')
  then show ?case by (auto intro: timers_ok_step)
qed

section \<open>Concrete runs\<close>

lemma demo_next_run: "getNextRunTime demo_env demo_job now = Inr (Some (now + 1000))"
  by (simp add: getNextRunTime_def demo_job_def has_timeout_def)

lemma demo_add: "addJobDefinition demo_env demo_def (initial_state 0) = (Some demo_job, demo_state)"
  by (simp add: addJobDefinition_def demo_def_def name_only_def demo_env_def demo_job_def
        demo_state_def initial_state_def Let_def)

lemma demo_schedule: "scheduleJob demo_env ''report'' demo_state = Some (Returned, demo_armed)"
proof -
  have j: "map_of (jobs demo_state) ''report'' = Some demo_job"
    by (simp add: demo_state_def)
  have "scheduleJob demo_env ''report'' demo_state
      = Some (Returned, arm ''report'' (Fire ''report'' demo_job) (clock demo_state + 1000 - clock demo_state)
                          (stopJob ''report'' demo_state))"
    by (rule scheduleJob_arms [OF j demo_next_run]) (simp_all add: MAX_SAFE_TIMEOUT_def)
  also have "arm ''report'' (Fire ''report'' demo_job) (clock demo_state + 1000 - clock demo_state)
                          (stopJob ''report'' demo_state) = demo_armed"
    by (simp add: arm_eq stopJob_eq demo_state_def demo_armed_def)
  finally show ?thesis .
qed

lemma demo_reschedule:
  "scheduleJob demo_env ''report'' demo_armed
     = Some (Returned, demo_armed\<lparr>timers := [(''report'', 1)],
                                  pending := [(1, 1000, Fire ''report'' demo_job)],
                                  next_timer := 2\<rparr>)"
proof -
  have j: "map_of (jobs demo_armed) ''report'' = Some demo_job"
    by (simp add: demo_armed_def)
  have "scheduleJob demo_env ''report'' demo_armed
      = Some (Returned, arm ''report'' (Fire ''report'' demo_job) (clock demo_armed + 1000 - clock demo_armed)
                          (stopJob ''report'' demo_armed))"
    by (rule scheduleJob_arms [OF j demo_next_run]) (simp_all add: MAX_SAFE_TIMEOUT_def)
  also have "arm ''report'' (Fire ''report'' demo_job) (clock demo_armed + 1000 - clock demo_armed)
                          (stopJob ''report'' demo_armed)
       = demo_armed\<lparr>timers := [(''report'', 1)],
                                  pending := [(1, 1000, Fire ''report'' demo_job)],
                                  next_timer := 2\<rparr>"
    by (simp add: arm_eq stopJob_eq demo_armed_def AList.delete_eq)
  finally show ?thesis .
qed

lemma demo_reachable: "reachable demo_env demo_armed"
proof -
  have "reachable demo_env (initial_state 0)"
    by (rule reach_init)
  moreover have "step demo_env (Add demo_def) (initial_state 0) = Some demo_state"
    by (simp add: step_def demo_add)
  ultimately have "reachable demo_env demo_state"
    by (rule reach_step)
  moreover have "step demo_env (Schedule ''report'') demo_state = Some demo_armed"
    by (simp add: step_def demo_schedule)
  ultimately show ?thesis
    by (rule reach_step)
qed

section \<open>One live timer per job\<close>

lemma scheduleJob_jobs_clock:
  assumes "scheduleJob E n s = Some (r, s')"
  shows "jobs s' = jobs s \<and> clock s' = clock s"
  using assms by (cases rule: scheduleJob_cases) (simp_all add: arm_eq)

lemma stopJob_clears:
  "map_of (timers s) n = Some t \<Longrightarrow> t \<notin> fst ` set (pending (stopJob n s))"
  by (auto simp add: stopJob_eq AList.delete_eq)

lemma timers_ok_table_issued:
  assumes "timers_ok s" and "map_of (timers s) n = Some t"
  shows "t < next_timer s"
  using assms by (auto simp add: timers_ok_def dest: map_of_SomeD)

lemma scheduleJob_cancels:
  assumes ok: "timers_ok s" and reg: "map_of (jobs s) n = Some j"
    and t: "map_of (timers s) n = Some t" and run: "scheduleJob E n s = Some (r, s')"
  shows "t \<notin> fst ` set (pending s')"
proof -
  note c = stopJob_clears [OF t]
  have i: "t \<noteq> next_timer s"
    using timers_ok_table_issued [OF ok t] by simp
  from run show ?thesis
  proof (cases rule: scheduleJob_cases)
    case unregistered
    with reg show ?thesis by simp
  next
    case (throws j e)
    with c show ?thesis by simp
  next
    case (no_schedule j)
    with c show ?thesis by simp
  next
    case (catch_up j t')
    with c show ?thesis by simp
  next
    case (intermediate j t')
    with c i show ?thesis by (auto simp add: arm_eq)
  next
    case (arms j t')
    with c i show ?thesis by (auto simp add: arm_eq)
  qed
qed

text \<open>
  Claim C7. In every state that the hook can reach, a job has at most one live timer.
  Stopping a job twice is the same as stopping it once, and afterwards the job has no
  entry in the timer table and no live timer. Scheduling a registered job twice in a
  row leaves at most one live timer: the handle that the first call stored is no longer
  in the queue after the second call.
\<close>

theorem one_live_timer_per_job:
  assumes "reachable E s"
  shows "length (live_timers n s) \<le> 1
       \<and> stopJob n (stopJob n s) = stopJob n s
       \<and> map_of (timers (stopJob n s)) n = None
       \<and> live_timers n (stopJob n s) = []
       \<and> (\<forall>r1 s1 r2 s2.
            map_of (jobs s) n \<noteq> None \<longrightarrow>
            scheduleJob E n s = Some (r1, s1) \<longrightarrow>
            scheduleJob E n s1 = Some (r2, s2) \<longrightarrow>
              length (live_timers n s2) \<le> 1
              \<and> (\<forall>t. map_of (timers s1) n = Some t \<longrightarrow> t \<notin> fst ` set (pending s2)))"
proof -
  have ok: "timers_ok s"
    using assms by (rule reachable_timers_ok)
  have twice: "length (live_timers n s2) \<le> 1
          \<and> (\<forall>t. map_of (timers s1) n = Some t \<longrightarrow> t \<notin> fst ` set (pending s2))"
    if reg: "map_of (jobs s) n \<noteq> None" and one: "scheduleJob E n s = Some (r1, s1)"
      and two: "scheduleJob E n s1 = Some (r2, s2)" for r1 s1 r2 s2
  proof -
    have ok1: "timers_ok s1" using ok one by (rule timers_ok_scheduleJob)
    have ok2: "timers_ok s2" using ok1 two by (rule timers_ok_scheduleJob)
    from reg scheduleJob_jobs_clock [OF one] obtain j where j: "map_of (jobs s1) n = Some j"
      by auto
    show ?thesis
      using live_timers_le_one [OF ok2] scheduleJob_cancels [OF ok1 j _ two] by blast
  qed
  show ?thesis
    using live_timers_le_one [OF ok] stopJob_idem stopJob_table live_timers_stopJob [OF ok] twice
    by blast
qed

theorem one_live_timer_per_job_witness:
  "reachable demo_env demo_armed
   \<and> length (live_timers ''report'' demo_armed) \<le> 1
   \<and> stopJob ''report'' (stopJob ''report'' demo_armed) = stopJob ''report'' demo_armed
   \<and> live_timers ''report'' (stopJob ''report'' demo_armed) = []
   \<and> live_timers ''report'' demo_armed = [(0, 1000, Fire ''report'' demo_job)]"
proof -
  have "live_timers ''report'' demo_armed = [(0, 1000, Fire ''report'' demo_job)]"
    by (simp add: live_timers_def demo_armed_def)
  with one_live_timer_per_job [OF demo_reachable, of "''report''"] demo_reachable
  show ?thesis by blast
qed

section \<open>Batch start\<close>

lemma getNextRunTime_throws_iff:
  "getNextRunTime E j now = Inl e \<longleftrightarrow> truthy (date j) \<and> has_timeout j \<and> e = DateAndTimeout (name j)"
  by (auto simp add: getNextRunTime_def)

lemma scheduleJob_threw:
  assumes "scheduleJob E n s = Some (Threw e, s')"
  shows "conflicting_schedule s n \<and> s' = stopJob n s
         \<and> (\<exists>j. map_of (jobs s) n = Some j \<and> e = DateAndTimeout (name j))"
  using assms
  by (cases rule: scheduleJob_cases)
     (auto simp add: conflicting_schedule_def getNextRunTime_throws_iff)

lemma scheduleJob_returned:
  assumes "scheduleJob E n s = Some (Returned, s')"
  shows "\<not> conflicting_schedule s n"
  using assms
  by (cases rule: scheduleJob_cases)
     (auto simp add: conflicting_schedule_def getNextRunTime_def split: if_splits)

text \<open>A call that is not in the endless catch-up returns.\<close>

lemma scheduleJob_returns:
  assumes "\<not> overdue_recurring E n s"
  shows "\<exists>r s'. scheduleJob E n s = Some (r, s')"
proof (cases "map_of (jobs s) n")
  case None
  then show ?thesis by (simp add: scheduleJob_unregistered)
next
  case (Some j)
  show ?thesis
  proof (cases "getNextRunTime E j (clock s)")
    case (Inl e)
    with Some show ?thesis by (simp add: scheduleJob_throws)
  next
    case (Inr ot)
    show ?thesis
    proof (cases ot)
      case None
      with Some Inr show ?thesis by (simp add: scheduleJob_no_schedule)
    next
      case Some2: (Some t)
      have g: "getNextRunTime E j (clock s) = Inr (Some t)"
        using Inr Some2 by simp
      consider "t \<le> clock s" | "t - clock s > MAX_SAFE_TIMEOUT"
        | "clock s < t" "t - clock s \<le> MAX_SAFE_TIMEOUT"
        by linarith
      then show ?thesis
      proof cases
        case 1
        with assms Some g have "\<not> recurring j"
          by (simp add: overdue_recurring_def)
        with scheduleJob_catch_up_once [OF Some g 1] show ?thesis by simp
      next
        case 2
        with scheduleJob_intermediate [OF Some g 2] show ?thesis by simp
      next
        case 3
        with scheduleJob_arms [OF Some g 3] show ?thesis by simp
      qed
    qed
  qed
qed

lemma timers_inj:
  assumes "timers_ok s" and "map_of (timers s) m = Some t" and "map_of (timers s) n = Some t"
  shows "m = n"
proof -
  have "inj_on snd (set (timers s))"
    using assms(1) by (simp add: timers_ok_def distinct_map)
  moreover have "(m, t) \<in> set (timers s)" "(n, t) \<in> set (timers s)"
    using assms(2,3) by (auto dest: map_of_SomeD)
  ultimately have "(m, t) = (n, t)"
    by (intro inj_onD [of snd "set (timers s)"]) simp_all
  then show ?thesis by simp
qed

lemma live_timers_stopJob_other:
  assumes ok: "timers_ok s" and ne: "m \<noteq> n"
  shows "live_timers m (stopJob n s) = live_timers m s"
proof (cases "map_of (timers s) n")
  case None
  then show ?thesis by (simp add: stopJob_eq)
next
  case (Some t)
  have ne_t: "fst p \<noteq> t" if "p \<in> set (pending s)" "cb_name (snd (snd p)) = m" for p
  proof
    assume "fst p = t"
    with timers_ok_lookup [OF ok that(1)] that(2) have "map_of (timers s) m = Some t"
      by simp
    from timers_inj [OF ok this Some] ne show False by simp
  qed
  have "filter (\<lambda>p. cb_name (snd (snd p)) = m) (filter (\<lambda>p. t \<noteq> fst p) (pending s))
           = filter (\<lambda>p. cb_name (snd (snd p)) = m) (pending s)"
    unfolding filter_filter
  proof (rule filter_cong)
    show "pending s = pending s" by simp
  next
    fix p assume "p \<in> set (pending s)"
    from ne_t [OF this] show "(t \<noteq> fst p \<and> cb_name (snd (snd p)) = m) = (cb_name (snd (snd p)) = m)"
      by blast
  qed
  moreover have "AList.delete t (pending s) = filter (\<lambda>p. t \<noteq> fst p) (pending s)"
    by (simp add: AList.delete_eq case_prod_unfold)
  ultimately show ?thesis
    by (simp add: stopJob_eq Some live_timers_def)
qed

lemma live_timers_arm_other:
  "cb_name cb = n \<Longrightarrow> m \<noteq> n \<Longrightarrow> live_timers m (arm n cb d s) = live_timers m s"
  by (simp add: arm_eq live_timers_def)

lemma timers_arm_other:
  "m \<noteq> n \<Longrightarrow> map_of (timers (arm n cb d s)) m = map_of (timers s) m"
  by (simp add: arm_eq update_conv')

lemma live_timers_context_executeJob:
  "live_timers m (snd (context_executeJob E n c s)) = live_timers m s"
  by (simp add: live_timers_def)

text \<open>Scheduling one job leaves the timers of every other job alone.\<close>

lemma scheduleJob_other:
  assumes ok: "timers_ok s" and ne: "m \<noteq> n" and run: "scheduleJob E n s = Some (r, s')"
  shows "map_of (timers s') m = map_of (timers s) m \<and> live_timers m s' = live_timers m s"
proof -
  note st = stopJob_other [OF ne, of s] live_timers_stopJob_other [OF ok ne]
  have ar: "map_of (timers (arm n cb d (stopJob n s))) m = map_of (timers s) m
            \<and> live_timers m (arm n cb d (stopJob n s)) = live_timers m s"
    if "cb_name cb = n" for cb d
    using st live_timers_arm_other [OF that ne] timers_arm_other [OF ne]
    by simp
  from run show ?thesis
  proof (cases rule: scheduleJob_cases)
    case unregistered
    then show ?thesis by simp
  next
    case (throws j e)
    with st show ?thesis by simp
  next
    case (no_schedule j)
    with st show ?thesis by simp
  next
    case (catch_up j t)
    have "map_of (timers s') m = map_of (timers (stopJob n s)) m"
      by (simp only: catch_up(6) context_executeJob_frame)
    moreover have "live_timers m s' = live_timers m (stopJob n s)"
      by (simp only: catch_up(6) live_timers_context_executeJob)
    ultimately show ?thesis using st by simp
  next
    case (intermediate j t)
    with ar [of "Recheck n" MAX_SAFE_TIMEOUT] show ?thesis by simp
  next
    case (arms j t)
    with ar [of "Fire n j" "t - clock s"] show ?thesis by simp
  qed
qed

lemma conflicting_schedule_cong:
  "jobs s' = jobs s \<Longrightarrow> conflicting_schedule s' n = conflicting_schedule s n"
  by (simp add: conflicting_schedule_def)

lemma overdue_recurring_cong:
  "jobs s' = jobs s \<Longrightarrow> clock s' = clock s \<Longrightarrow> overdue_recurring E n s' = overdue_recurring E n s"
  by (simp add: overdue_recurring_def cong: option.case_cong sum.case_cong)

text \<open>
  The loop of \<^verbatim>\<open>startJobs\<close>: it returns when no job on the list is in the endless
  catch-up; it ends with a throw exactly at the first job that declares both a date and
  a timeout, with the jobs before it scheduled and the jobs after it untouched.
\<close>

lemma schedule_each_jobs_clock:
  "schedule_each E ns s = Some (r, s') \<Longrightarrow> jobs s' = jobs s \<and> clock s' = clock s"
proof (induction ns arbitrary: s)
  case Nil
  then show ?case by simp
next
  case (Cons n ns)
  from Cons.prems obtain r1 s1 where one: "scheduleJob E n s = Some (r1, s1)"
    by (cases "scheduleJob E n s") auto
  note same = scheduleJob_jobs_clock [OF one]
  show ?case
  proof (cases r1)
    case Returned
    with Cons.prems one have "schedule_each E ns s1 = Some (r, s')" by simp
    from Cons.IH [OF this] same show ?thesis by simp
  next
    case (Threw e)
    with Cons.prems one same show ?thesis by simp
  qed
qed

lemma schedule_each_returns:
  "\<forall>n \<in> set ns. \<not> overdue_recurring E n s \<Longrightarrow> \<exists>r s'. schedule_each E ns s = Some (r, s')"
proof (induction ns arbitrary: s)
  case Nil
  show ?case by simp
next
  case (Cons n ns)
  from Cons.prems have "\<not> overdue_recurring E n s" by simp
  then obtain r1 s1 where one: "scheduleJob E n s = Some (r1, s1)"
    using scheduleJob_returns by blast
  note same = scheduleJob_jobs_clock [OF one]
  show ?case
  proof (cases r1)
    case Returned
    have "overdue_recurring E m s1 = overdue_recurring E m s" for m
      using same by (intro overdue_recurring_cong) simp_all
    with Cons.prems have "\<forall>m \<in> set ns. \<not> overdue_recurring E m s1"
      by simp
    from Cons.IH [OF this] obtain r s' where "schedule_each E ns s1 = Some (r, s')"
      by blast
    then have "schedule_each E (n # ns) s = Some (r, s')"
      using one Returned by simp
    then show ?thesis by blast
  next
    case (Threw e)
    then have "schedule_each E (n # ns) s = Some (Threw e, s1)"
      using one by simp
    then show ?thesis by blast
  qed
qed

lemma schedule_each_returned:
  "schedule_each E ns s = Some (Returned, s') \<Longrightarrow> n \<in> set ns \<Longrightarrow> \<not> conflicting_schedule s n"
proof (induction ns arbitrary: s)
  case Nil
  then show ?case by simp
next
  case (Cons a ns)
  from Cons.prems(1) obtain r1 s1 where one: "scheduleJob E a s = Some (r1, s1)"
    by (cases "scheduleJob E a s") auto
  have r1: "r1 = Returned"
    using Cons.prems(1) one by (cases r1) simp_all
  have rest: "schedule_each E ns s1 = Some (Returned, s')"
    using Cons.prems(1) one r1 by simp
  note same = scheduleJob_jobs_clock [OF one]
  show ?case
  proof (cases "n = a")
    case True
    with one r1 show ?thesis by (simp add: scheduleJob_returned)
  next
    case False
    with Cons.prems(2) have "n \<in> set ns" by simp
    from Cons.IH [OF rest this] have "\<not> conflicting_schedule s1 n" .
    moreover have "conflicting_schedule s1 n = conflicting_schedule s n"
      using same by (intro conflicting_schedule_cong) simp
    ultimately show ?thesis by simp
  qed
qed

lemma schedule_each_threw:
  "schedule_each E ns s = Some (Threw e, s') \<Longrightarrow>
   \<exists>pre n post s1. ns = pre @ n # post \<and> schedule_each E pre s = Some (Returned, s1)
                     \<and> scheduleJob E n s1 = Some (Threw e, s')"
proof (induction ns arbitrary: s)
  case Nil
  then show ?case by simp
next
  case (Cons a ns)
  from Cons.prems obtain r1 s1 where one: "scheduleJob E a s = Some (r1, s1)"
    by (cases "scheduleJob E a s") auto
  show ?case
  proof (cases r1)
    case (Threw e1)
    with Cons.prems one have "e1 = e" "s1 = s'" by simp_all
    with one Threw have "a # ns = [] @ a # ns \<and> schedule_each E [] s = Some (Returned, s)
                     \<and> scheduleJob E a s = Some (Threw e, s')"
      by simp
    then show ?thesis by blast
  next
    case Returned
    with Cons.prems one have "schedule_each E ns s1 = Some (Threw e, s')" by simp
    from Cons.IH [OF this] obtain pre n post s2 where
      p: "ns = pre @ n # post" "schedule_each E pre s1 = Some (Returned, s2)"
         "scheduleJob E n s2 = Some (Threw e, s')"
      by blast
    have "a # ns = (a # pre) @ n # post \<and> schedule_each E (a # pre) s = Some (Returned, s2)
            \<and> scheduleJob E n s2 = Some (Threw e, s')"
      using p one Returned by simp
    then show ?thesis by blast
  qed
qed

lemma schedule_each_other:
  "timers_ok s \<Longrightarrow> schedule_each E ns s = Some (r, s') \<Longrightarrow> m \<notin> set ns \<Longrightarrow>
   map_of (timers s') m = map_of (timers s) m \<and> live_timers m s' = live_timers m s"
proof (induction ns arbitrary: s)
  case Nil
  then show ?case by simp
next
  case (Cons a ns)
  from Cons.prems(2) obtain r1 s1 where one: "scheduleJob E a s = Some (r1, s1)"
    by (cases "scheduleJob E a s") auto
  have ne: "m \<noteq> a" and rest: "m \<notin> set ns"
    using Cons.prems(3) by auto
  note fr = scheduleJob_other [OF Cons.prems(1) ne one]
  have ok1: "timers_ok s1"
    using Cons.prems(1) one by (rule timers_ok_scheduleJob)
  show ?case
  proof (cases r1)
    case Returned
    with Cons.prems(2) one have "schedule_each E ns s1 = Some (r, s')" by simp
    from Cons.IH [OF ok1 this rest] fr show ?thesis by simp
  next
    case (Threw e)
    with Cons.prems(2) one fr show ?thesis by simp
  qed
qed

text \<open>
  The relation \<open>scheduled_in_turn\<close> and the loop agree on the batches that return.
\<close>

lemma schedule_each_returned_iff:
  "schedule_each E ns s = Some (Returned, s') \<longleftrightarrow> scheduled_in_turn E ns s s'"
proof
  show "schedule_each E ns s = Some (Returned, s') \<Longrightarrow> scheduled_in_turn E ns s s'"
  proof (induction ns arbitrary: s)
    case Nil
    then show ?case by (simp add: turn_done)
  next
    case (Cons a ns)
    from Cons.prems obtain r1 s1 where one: "scheduleJob E a s = Some (r1, s1)"
      by (cases "scheduleJob E a s") auto
    have r1: "r1 = Returned"
      using Cons.prems one by (cases r1) simp_all
    have "schedule_each E ns s1 = Some (Returned, s')"
      using Cons.prems one r1 by simp
    from Cons.IH [OF this] one r1 show ?case
      by (simp add: turn_step)
  qed
next
  show "scheduled_in_turn E ns s s' \<Longrightarrow> schedule_each E ns s = Some (Returned, s')"
    by (induction rule: scheduled_in_turn.induct) simp_all
qed

lemma scheduleJob_overdue: "overdue_recurring E n s \<Longrightarrow> scheduleJob E n s = None"
  using scheduleJob_returns_not_overdue [of E n s] by (cases "scheduleJob E n s") auto

lemma schedule_each_append:
  "scheduled_in_turn E pre s s1 \<Longrightarrow> schedule_each E (pre @ rest) s = schedule_each E rest s1"
  by (induction rule: scheduled_in_turn.induct) simp_all

lemma scheduled_in_turn_jobs_clock:
  "scheduled_in_turn E pre s s1 \<Longrightarrow> jobs s1 = jobs s \<and> clock s1 = clock s"
  using schedule_each_jobs_clock [of E pre s Returned s1]
  by (simp add: schedule_each_returned_iff)

lemma schedule_each_overdue:
  assumes "scheduled_in_turn E pre s s1" and "overdue_recurring E n s"
  shows "schedule_each E (pre @ n # post) s = None"
proof -
  have "overdue_recurring E n s1 = overdue_recurring E n s"
    using scheduled_in_turn_jobs_clock [OF assms(1)] by (intro overdue_recurring_cong) simp_all
  with assms(2) have "scheduleJob E n s1 = None"
    by (simp add: scheduleJob_overdue)
  then show ?thesis
    by (simp add: schedule_each_append [OF assms(1)])
qed

section \<open>Batch start stops at the first throw\<close>

lemma broken_next_run:
  "getNextRunTime demo_env broken_job now = Inl (DateAndTimeout ''broken'')"
  by (simp add: getNextRunTime_def broken_job_def demo_job_def has_timeout_def)

lemma broken_start:
  "startJobs demo_env None broken_state = Some (Threw (DateAndTimeout ''broken''), broken_state)"
proof -
  have j: "map_of (jobs broken_state) ''broken'' = Some broken_job"
    by (simp add: broken_state_def)
  have t: "stopJob ''broken'' broken_state = broken_state"
    by (simp add: stopJob_eq broken_state_def)
  have "scheduleJob demo_env ''broken'' broken_state
          = Some (Threw (DateAndTimeout ''broken''), broken_state)"
    using scheduleJob_throws [OF j broken_next_run] t by simp
  moreover have "batch_names None broken_state = [''broken'', ''report'']"
    by (simp add: batch_names_def broken_state_def)
  ultimately show ?thesis
    by (simp add: startJobs_def)
qed

lemma broken_report_alone:
  "scheduleJob demo_env ''report'' broken_state
     = Some (Returned, broken_state\<lparr>timers := [(''report'', 0)],
                                     pending := [(0, 1000, Fire ''report'' demo_job)],
                                     next_timer := 1\<rparr>)"
proof -
  have j: "map_of (jobs broken_state) ''report'' = Some demo_job"
    by (simp add: broken_state_def)
  have "scheduleJob demo_env ''report'' broken_state
      = Some (Returned, arm ''report'' (Fire ''report'' demo_job)
                          (clock broken_state + 1000 - clock broken_state)
                          (stopJob ''report'' broken_state))"
    by (rule scheduleJob_arms [OF j demo_next_run]) (simp_all add: MAX_SAFE_TIMEOUT_def)
  also have "arm ''report'' (Fire ''report'' demo_job)
                          (clock broken_state + 1000 - clock broken_state)
                          (stopJob ''report'' broken_state)
       = broken_state\<lparr>timers := [(''report'', 0)],
                                     pending := [(0, 1000, Fire ''report'' demo_job)],
                                     next_timer := 1\<rparr>"
    by (simp add: arm_eq stopJob_eq broken_state_def)
  finally show ?thesis .
qed

text \<open>
  Claim C5, as stated, fails. The registry holds \<^verbatim>\<open>broken\<close>, which declares a date and
  a timeout, and then \<^verbatim>\<open>report\<close>. Starting all jobs throws at \<^verbatim>\<open>broken\<close> and leaves
  the state as it was: \<^verbatim>\<open>report\<close>, which \<^verbatim>\<open>scheduleJob\<close> on its own would arm, has
  no timer.
\<close>

theorem startJobs_aborts_on_throw_counterexample:
  "startJobs demo_env None broken_state = Some (Threw (DateAndTimeout ''broken''), broken_state)
   \<and> batch_names None broken_state = [''broken'', ''report'']
   \<and> timers broken_state = [] \<and> pending broken_state = []
   \<and> scheduleJob demo_env ''report'' broken_state
        = Some (Returned, broken_state\<lparr>timers := [(''report'', 0)],
                                        pending := [(0, 1000, Fire ''report'' demo_job)],
                                        next_timer := 1\<rparr>)"
  using broken_start broken_report_alone
  by (simp add: batch_names_def broken_state_def)

text \<open>
  Claim C5, amended. \<^verbatim>\<open>startJobs\<close> applies \<^verbatim>\<open>scheduleJob\<close> to the names in the order
  of the list, which is the registration order when no names are given; a name that is
  not registered and a job without a valid next run time make \<^verbatim>\<open>scheduleJob\<close> return
  normally, so they do not stop the batch. When no job on the list is in the endless
  catch-up, the batch returns or throws. It returns exactly when no job on the list
  declares both a date and a timeout, and then every name on the list has been
  scheduled in turn. Otherwise it throws at the first such job: the names before it have
  been scheduled in turn, the job itself has only been stopped, and for every other
  name the timer table and the live timers are as they were before the batch. A
  recurring job whose next run time is not after the current instant, reached after the
  names before it have been scheduled, keeps \<^verbatim>\<open>scheduleJob\<close> re-entering itself: the
  batch has no result and reaches no later name.
\<close>

theorem startJobs_stops_at_first_throw:
  assumes ok: "timers_ok s"
  shows "batch_names None s = map fst (jobs s)
       \<and> ((\<forall>n \<in> set (batch_names names s). \<not> overdue_recurring E n s) \<longrightarrow>
            (\<exists>r s'. startJobs E names s = Some (r, s')
               \<and> (r = Returned \<longleftrightarrow> (\<forall>n \<in> set (batch_names names s). \<not> conflicting_schedule s n))
               \<and> (r = Returned \<longrightarrow> scheduled_in_turn E (batch_names names s) s s')
               \<and> (\<forall>e. r = Threw e \<longrightarrow>
                     (\<exists>pre n post s1.
                         batch_names names s = pre @ n # post
                         \<and> (\<forall>m \<in> set pre. \<not> conflicting_schedule s m)
                         \<and> conflicting_schedule s n
                         \<and> scheduled_in_turn E pre s s1
                         \<and> scheduleJob E n s1 = Some (Threw e, s')
                         \<and> s' = stopJob n s1
                         \<and> (\<forall>m. m \<notin> set pre \<longrightarrow> m \<noteq> n \<longrightarrow>
                               map_of (timers s') m = map_of (timers s) m
                               \<and> live_timers m s' = live_timers m s)))))
       \<and> (\<forall>pre n post s1.
             batch_names names s = pre @ n # post \<and> scheduled_in_turn E pre s s1
             \<and> overdue_recurring E n s \<longrightarrow> startJobs E names s = None)
       \<and> (\<forall>n s0. map_of (jobs s0) n = None \<longrightarrow> scheduleJob E n s0 = Some (Returned, s0))
       \<and> (\<forall>n j s0. map_of (jobs s0) n = Some j \<and> getNextRunTime E j (clock s0) = Inr None \<longrightarrow>
             scheduleJob E n s0 = Some (Returned, stopJob n s0))"
proof -
  define ns where "ns = batch_names names s"
  have A: "batch_names None s = map fst (jobs s)"
    by (simp add: batch_names_def)
  have B: "\<exists>r s'. startJobs E names s = Some (r, s')
               \<and> (r = Returned \<longleftrightarrow> (\<forall>n \<in> set ns. \<not> conflicting_schedule s n))
               \<and> (r = Returned \<longrightarrow> scheduled_in_turn E ns s s')
               \<and> (\<forall>e. r = Threw e \<longrightarrow>
                     (\<exists>pre n post s1.
                         ns = pre @ n # post
                         \<and> (\<forall>m \<in> set pre. \<not> conflicting_schedule s m)
                         \<and> conflicting_schedule s n
                         \<and> scheduled_in_turn E pre s s1
                         \<and> scheduleJob E n s1 = Some (Threw e, s')
                         \<and> s' = stopJob n s1
                         \<and> (\<forall>m. m \<notin> set pre \<longrightarrow> m \<noteq> n \<longrightarrow>
                               map_of (timers s') m = map_of (timers s) m
                               \<and> live_timers m s' = live_timers m s)))"
    if nod: "\<forall>n \<in> set ns. \<not> overdue_recurring E n s"
  proof -
    from schedule_each_returns [of ns E s] nod obtain r s' where
      run: "schedule_each E ns s = Some (r, s')"
      by blast
    have thr: "\<exists>pre n post s1.
                    ns = pre @ n # post
                    \<and> (\<forall>m \<in> set pre. \<not> conflicting_schedule s m)
                    \<and> conflicting_schedule s n
                    \<and> scheduled_in_turn E pre s s1
                    \<and> scheduleJob E n s1 = Some (Threw e, s')
                    \<and> s' = stopJob n s1
                    \<and> (\<forall>m. m \<notin> set pre \<longrightarrow> m \<noteq> n \<longrightarrow>
                          map_of (timers s') m = map_of (timers s) m
                          \<and> live_timers m s' = live_timers m s)"
      if r: "r = Threw e" for e
    proof -
      from schedule_each_threw [OF run [unfolded r]] obtain pre n post s1 where
        p: "ns = pre @ n # post" "schedule_each E pre s = Some (Returned, s1)"
           "scheduleJob E n s1 = Some (Threw e, s')"
        by blast
      have turn: "scheduled_in_turn E pre s s1"
        using p(2) by (simp add: schedule_each_returned_iff)
      have same: "jobs s1 = jobs s"
        using schedule_each_jobs_clock [OF p(2)] by simp
      have ok1: "timers_ok s1"
        using ok p(2) by (rule timers_ok_schedule_each)
      from scheduleJob_threw [OF p(3)] have c1: "conflicting_schedule s1 n" and s': "s' = stopJob n s1"
        by simp_all
      have c: "conflicting_schedule s n"
        using c1 conflicting_schedule_cong [OF same, of n] by simp
      have a: "\<forall>m \<in> set pre. \<not> conflicting_schedule s m"
        using schedule_each_returned [OF p(2)] by blast
      have f: "map_of (timers s') m = map_of (timers s) m \<and> live_timers m s' = live_timers m s"
        if "m \<notin> set pre" "m \<noteq> n" for m
        using schedule_each_other [OF ok p(2) that(1)] scheduleJob_other [OF ok1 that(2) p(3)]
        by simp
      from p(1,3) turn a c s' f show ?thesis by blast
    qed
    have ret: "(r = Returned) = (\<forall>n \<in> set ns. \<not> conflicting_schedule s n)"
    proof
      assume "r = Returned"
      with run schedule_each_returned show "\<forall>n \<in> set ns. \<not> conflicting_schedule s n"
        by blast
    next
      assume none: "\<forall>n \<in> set ns. \<not> conflicting_schedule s n"
      show "r = Returned"
      proof (cases r)
        case Returned
        then show ?thesis .
      next
        case (Threw e)
        from thr [OF this] none show ?thesis by auto
      qed
    qed
    have turn: "r = Returned \<longrightarrow> scheduled_in_turn E ns s s'"
      using run by (auto simp add: schedule_each_returned_iff)
    have "startJobs E names s = Some (r, s')"
      using run by (simp add: startJobs_def ns_def)
    with ret turn thr show ?thesis
      by blast
  qed
  have C: "startJobs E names s = None"
    if "ns = pre @ n # post \<and> scheduled_in_turn E pre s s1 \<and> overdue_recurring E n s"
    for pre n post s1
    using that schedule_each_overdue [of E pre s s1 n post]
    by (simp add: startJobs_def ns_def [symmetric])
  have D: "\<forall>n s0. map_of (jobs s0) n = None \<longrightarrow> scheduleJob E n s0 = Some (Returned, s0)"
    by (simp add: scheduleJob_unregistered)
  have F: "\<forall>n j s0. map_of (jobs s0) n = Some j \<and> getNextRunTime E j (clock s0) = Inr None \<longrightarrow>
             scheduleJob E n s0 = Some (Returned, stopJob n s0)"
    by (simp add: scheduleJob_no_schedule)
  from A B C D F show ?thesis
    unfolding ns_def by (intro conjI impI allI) blast+
qed

theorem startJobs_stops_at_first_throw_witness:
  "timers_ok demo_state
   \<and> startJobs demo_env (Some [''ghost'', ''report'']) demo_state = Some (Returned, demo_armed)
   \<and> timers_ok broken_state
   \<and> batch_names None broken_state = [''broken'', ''report'']
   \<and> conflicting_schedule broken_state ''broken''
   \<and> (\<exists>e. startJobs demo_env None broken_state = Some (Threw e, broken_state))"
proof -
  have a: "timers_ok demo_state" "timers_ok broken_state"
    by (simp_all add: timers_ok_def demo_state_def broken_state_def)
  have g: "scheduleJob demo_env ''ghost'' demo_state = Some (Returned, demo_state)"
    by (rule scheduleJob_unregistered) (simp add: demo_state_def)
  have run: "startJobs demo_env (Some [''ghost'', ''report'']) demo_state = Some (Returned, demo_armed)"
    by (simp add: startJobs_def batch_names_def g demo_schedule)
  have n: "batch_names None broken_state = [''broken'', ''report'']"
    by (simp add: batch_names_def broken_state_def)
  have b: "\<forall>n \<in> set (batch_names None broken_state). \<not> overdue_recurring demo_env n broken_state"
    by (simp add: n) (simp add: broken_state_def overdue_recurring_def broken_next_run
          demo_next_run)
  have c: "conflicting_schedule broken_state ''broken''"
    by (simp add: conflicting_schedule_def broken_state_def broken_job_def demo_job_def
          has_timeout_def)
  from startJobs_stops_at_first_throw [OF a(2), of None demo_env] b obtain r s' where
    run2: "startJobs demo_env None broken_state = Some (r, s')"
    and ret: "r = Returned \<longleftrightarrow>
                (\<forall>n \<in> set (batch_names None broken_state). \<not> conflicting_schedule broken_state n)"
    and thr: "\<forall>e. r = Threw e \<longrightarrow>
                     (\<exists>pre n post s1.
                         batch_names None broken_state = pre @ n # post
                         \<and> (\<forall>m \<in> set pre. \<not> conflicting_schedule broken_state m)
                         \<and> conflicting_schedule broken_state n
                         \<and> scheduled_in_turn demo_env pre broken_state s1
                         \<and> scheduleJob demo_env n s1 = Some (Threw e, s')
                         \<and> s' = stopJob n s1
                         \<and> (\<forall>m. m \<notin> set pre \<longrightarrow> m \<noteq> n \<longrightarrow>
                               map_of (timers s') m = map_of (timers broken_state) m
                               \<and> live_timers m s' = live_timers m broken_state))"
    by blast
  from ret c n have "r \<noteq> Returned"
    by simp
  then obtain e where e: "r = Threw e"
    by (cases r) simp_all
  from thr e obtain pre m post s1 where
    p: "batch_names None broken_state = pre @ m # post"
       "\<forall>k \<in> set pre. \<not> conflicting_schedule broken_state k"
       "scheduled_in_turn demo_env pre broken_state s1" "s' = stopJob m s1"
    by blast
  have pre: "pre = []"
  proof (cases pre)
    case Nil
    then show ?thesis .
  next
    case (Cons k ks)
    with p(1) n have "k = ''broken''" by simp
    with p(2) c Cons show ?thesis by simp
  qed
  with p(1) n have m: "m = ''broken''"
    by simp
  from p(3) pre have "s1 = broken_state"
    by (simp add: schedule_each_returned_iff [symmetric])
  with p(4) m have "s' = broken_state"
    by (simp add: stopJob_eq broken_state_def)
  with run2 e a run n c show ?thesis
    by blast
qed

section \<open>Delays beyond the range of the platform timer\<close>

text \<open>
  A job with a numeric interval beyond the range of the platform timer: every call of
  \<^verbatim>\<open>scheduleJob\<close> computes a next run time that is the interval away from the current
  clock, so it sets another intermediate timer, never the real one.
\<close>

lemma long_interval_rechecks:
  assumes "map_of (jobs s) n = Some j" and "interval j = JNum i" and "i > MAX_SAFE_TIMEOUT"
    and "\<not> truthy (cron j)" and "\<not> (truthy (date j) \<and> has_timeout j)"
  shows "scheduleJob E n s = Some (Returned, arm n (Recheck n) MAX_SAFE_TIMEOUT (stopJob n s))"
proof -
  have "getNextRunTime E j (clock s) = Inr (Some (clock s + i))"
    using assms(2,4,5) by (simp add: getNextRunTime_def)
  from scheduleJob_intermediate [OF assms(1) this] assms(3) show ?thesis
    by simp
qed

text \<open>
  A job with only an absolute date keeps its target: whenever it is asked before the
  date, the parser answers the date itself, so the call that follows an intermediate
  timer sets the real timer, due at the date, once the date is within range.
\<close>

lemma date_target_is_fixed:
  assumes "date j = JDate d" and "now < d" and "\<not> truthy (cron j)"
    and "interval j = JUndefined" and "\<not> has_timeout j"
  shows "getNextRunTime E j now = Inr (Some d)"
  using assms by (simp add: getNextRunTime_def to_date_def)

lemma date_job_recheck_arms_target:
  assumes "map_of (jobs s) n = Some j" and "date j = JDate d" and "clock s < d"
    and "d - clock s \<le> MAX_SAFE_TIMEOUT" and "\<not> truthy (cron j)"
    and "interval j = JUndefined" and "\<not> has_timeout j"
  shows "run_callback E (Recheck n) s
           = Some (Returned, arm n (Fire n j) (d - clock s) (stopJob n s))"
  using scheduleJob_arms [OF assms(1) date_target_is_fixed [OF assms(2,3,5,6,7)] assms(3,4)]
  by (simp add: run_callback_def)

lemma monthly_schedule:
  assumes "map_of (jobs s) ''monthly'' = Some monthly_job"
  shows "scheduleJob demo_env ''monthly'' s
           = Some (Returned, arm ''monthly'' (Recheck ''monthly'') MAX_SAFE_TIMEOUT
                               (stopJob ''monthly'' s))"
  by (rule long_interval_rechecks [OF assms, of 2592000000])
     (simp_all add: monthly_job_def demo_job_def MAX_SAFE_TIMEOUT_def has_timeout_def)

lemma timer_fires_recheck:
  "map_of (pending s) t = Some (due, Recheck n) \<Longrightarrow>
   timer_fires E t at s = scheduleJob E n (s\<lparr>clock := at, pending := AList.delete t (pending s)\<rparr>)"
  by (simp add: timer_fires_def run_callback_def)

lemma timer_fires_fire:
  "map_of (pending s) t = Some (due, Fire n j) \<Longrightarrow> recurring j \<Longrightarrow>
   timer_fires E t at s
     = scheduleJob E n
         (snd (context_executeJob E n None (s\<lparr>clock := at, pending := AList.delete t (pending s)\<rparr>)))"
  by (simp add: timer_fires_def run_callback_def)

text \<open>
  Claim C1 says that a job whose delay exceeds the bound of the platform timer still
  runs at the target computed first, whatever the form of its schedule. The code does
  not do so for a plain interval; here is a job that runs every 30 days. Scheduled at
  instant 0, its first run is due at 2592000000. The intermediate timer fires at 2147483647; the callback calls
  \<^verbatim>\<open>scheduleJob\<close>, which asks for the next run time again, gets an instant 30 days
  after the firing and sets a second intermediate timer, due at 4294967294, which is
  after the target of the first call. Nothing has run.
\<close>

theorem monthly_job_is_never_run:
  "getNextRunTime demo_env monthly_job 0 = Inr (Some 2592000000)
   \<and> scheduleJob demo_env ''monthly'' monthly_state = Some (Returned, monthly_armed)
   \<and> timer_fires demo_env 0 2147483647 monthly_armed = Some (Returned, monthly_rearmed)
   \<and> clock monthly_rearmed < 2592000000
   \<and> pending monthly_rearmed = [(1, 4294967294, Recheck ''monthly'')]
   \<and> trace monthly_rearmed = []"
proof -
  have a: "getNextRunTime demo_env monthly_job 0 = Inr (Some 2592000000)"
    by (simp add: getNextRunTime_def monthly_job_def demo_job_def has_timeout_def)
  have j0: "map_of (jobs monthly_state) ''monthly'' = Some monthly_job"
    by (simp add: monthly_state_def)
  have b: "scheduleJob demo_env ''monthly'' monthly_state = Some (Returned, monthly_armed)"
    unfolding monthly_schedule [OF j0]
    by (simp add: monthly_state_def monthly_armed_def arm_eq stopJob_eq MAX_SAFE_TIMEOUT_def)
  have p: "map_of (pending monthly_armed) 0 = Some (2147483647, Recheck ''monthly'')"
    by (simp add: monthly_armed_def)
  have j1: "map_of (jobs (monthly_armed\<lparr>clock := 2147483647,
              pending := AList.delete 0 (pending monthly_armed)\<rparr>)) ''monthly'' = Some monthly_job"
    by (simp add: monthly_armed_def)
  have c: "timer_fires demo_env 0 2147483647 monthly_armed = Some (Returned, monthly_rearmed)"
    unfolding timer_fires_recheck [OF p] monthly_schedule [OF j1]
    by (simp add: monthly_armed_def monthly_rearmed_def arm_eq stopJob_eq MAX_SAFE_TIMEOUT_def
          AList.delete_eq)
  from a b c show ?thesis
    by (simp add: monthly_rearmed_def)
qed

section \<open>When a recurring job is armed again\<close>

lemma demo_fire: "timer_fires demo_env 0 1000 demo_armed = Some (Returned, demo_fired)"
proof -
  define s1 where "s1 = snd (context_executeJob demo_env ''report'' None
       (demo_armed\<lparr>clock := 1000, pending := AList.delete 0 (pending demo_armed)\<rparr>))"
  have s1: "s1 = \<lparr>jobs = [(''report'', demo_job)], timers = [(''report'', 0)],
                  running = [(''report'', 1000)], clock = 1000, pending = [], next_timer = 1,
                  trace = [RunningSet ''report'' 1000, Spawn ''report'' [''run'', ''report'']]\<rparr>"
    by (simp add: s1_def demo_armed_def context_executeJob_def executeJob_def demo_job_def
          demo_env_def running_set_def spawn_def buildCommandArgs_def merged_inputs_def
          spread_def stringify_throws_def AList.delete_eq)
  have p: "map_of (pending demo_armed) 0 = Some (1000, Fire ''report'' demo_job)"
    by (simp add: demo_armed_def)
  have r: "recurring demo_job"
    by (simp add: recurring_def demo_job_def)
  have j: "map_of (jobs s1) ''report'' = Some demo_job"
    by (simp add: s1)
  have "timer_fires demo_env 0 1000 demo_armed = scheduleJob demo_env ''report'' s1"
    unfolding s1_def by (rule timer_fires_fire [OF p r])
  also have "\<dots> = Some (Returned, arm ''report'' (Fire ''report'' demo_job)
                                  (clock s1 + 1000 - clock s1) (stopJob ''report'' s1))"
    by (rule scheduleJob_arms [OF j demo_next_run]) (simp_all add: MAX_SAFE_TIMEOUT_def)
  also have "arm ''report'' (Fire ''report'' demo_job) (clock s1 + 1000 - clock s1)
               (stopJob ''report'' s1) = demo_fired"
    by (simp add: s1 arm_eq stopJob_eq demo_fired_def AList.delete_eq)
  finally show ?thesis .
qed

lemma demo_exit:
  "on_exit ''report'' (Some 0) (demo_fired\<lparr>clock := 1700\<rparr>) = (Succeeded (Some 700), demo_done)"
  by (simp add: on_exit_def demo_fired_def demo_done_def running_delete_def AList.delete_eq)

text \<open>
  Claim C2, as stated, fails. The timer of \<^verbatim>\<open>report\<close> (every 1000 ms) fires at 1000.
  In the state that the callback leaves, the child is still in flight and the next timer
  is already set, for 2000. The child exits at 1700; a parser query at that instant
  gives 2700, but the live timer is still the one for 2000.
\<close>

theorem rearm_precedes_completion_counterexample:
  "timer_fires demo_env 0 1000 demo_armed = Some (Returned, demo_fired)
   \<and> map_of (running demo_fired) ''report'' = Some 1000
   \<and> live_timers ''report'' demo_fired = [(1, 2000, Fire ''report'' demo_job)]
   \<and> on_exit ''report'' (Some 0) (demo_fired\<lparr>clock := 1700\<rparr>) = (Succeeded (Some 700), demo_done)
   \<and> getNextRunTime demo_env demo_job (clock demo_done) = Inr (Some 2700)
   \<and> live_timers ''report'' demo_done = [(1, 2000, Fire ''report'' demo_job)]"
  using demo_fire demo_exit
  by (simp add: demo_next_run live_timers_def demo_fired_def demo_done_def)

lemma live_timers_arm_same:
  "cb_name cb = n \<Longrightarrow> 1 \<le> d \<Longrightarrow> d \<le> MAX_SAFE_TIMEOUT \<Longrightarrow>
   live_timers n (arm n cb d s) = live_timers n s @ [(next_timer s, clock s + d, cb)]"
  by (simp add: arm_eq live_timers_def MAX_SAFE_TIMEOUT_def)

lemma settle_leaves_timers:
  "timers (snd (on_exit n code s)) = timers s" "pending (snd (on_exit n code s)) = pending s"
  "timers (snd (on_error n s)) = timers s" "pending (snd (on_error n s)) = pending s"
  by (simp_all add: on_exit_def on_error_def running_delete_def Let_def)

lemma executeJob_pending:
  "executeJob E n j c (s\<lparr>pending := p\<rparr>)
     = (fst (executeJob E n j c s), (snd (executeJob E n j c s))\<lparr>pending := p\<rparr>)"
  by (simp add: executeJob_def running_set_def running_delete_def spawn_def Let_def)

lemma context_executeJob_pending:
  "context_executeJob E n c (s\<lparr>pending := p\<rparr>)
     = (fst (context_executeJob E n c s), (snd (context_executeJob E n c s))\<lparr>pending := p\<rparr>)"
  by (cases "map_of (jobs s) n") (simp_all add: context_executeJob_def executeJob_pending)

text \<open>A timer that has fired was the only live timer of its job.\<close>

lemma live_timers_fired:
  assumes ok: "timers_ok s" and p: "map_of (pending s) t = Some (due, cb)"
  shows "live_timers (cb_name cb) (s\<lparr>clock := at, pending := AList.delete t (pending s)\<rparr>) = []"
proof -
  have t: "map_of (timers s) (cb_name cb) = Some t"
    using timers_ok_lookup [OF ok map_of_SomeD [OF p]] by simp
  have "cb_name (snd (snd q)) \<noteq> cb_name cb" if q: "q \<in> set (AList.delete t (pending s))" for q
  proof
    assume same: "cb_name (snd (snd q)) = cb_name cb"
    from q have mem: "q \<in> set (pending s)" and ne: "fst q \<noteq> t"
      by (auto simp add: AList.delete_eq)
    from timers_ok_lookup [OF ok mem] same t have "fst q = t"
      by simp
    with ne show False by simp
  qed
  then show ?thesis
    by (simp add: live_timers_def filter_empty_conv)
qed

text \<open>
  Claim C2, amended. When the timer of a recurring job fires at some instant, the
  callback starts the execution and, in the same step and without waiting for it, calls
  \<^verbatim>\<open>scheduleJob\<close>, which queries the parser afresh at the instant of the firing, for
  the job that is registered then. The job's live timers after the callback are given
  by that query alone: none when the job is no longer registered or has no next run time
  (or the query throws), one intermediate timer when the next run is beyond the range
  of the platform timer, and otherwise one timer due exactly at the next run. When the
  registered job is recurring and the query gives an instant that is not after the
  firing, \<^verbatim>\<open>scheduleJob\<close> keeps re-entering itself and the callback has no result.
  The settlement of the execution, by exit or by error, changes neither the timer table
  nor the queue.
\<close>

theorem recurring_job_rearms_at_firing:
  assumes ok: "timers_ok s"
    and p: "map_of (pending s) t = Some (due, Fire n j)" and r: "recurring j"
  shows "timer_fires E t at s
           = scheduleJob E n
               (snd (context_executeJob E n None
                       (s\<lparr>clock := at, pending := AList.delete t (pending s)\<rparr>)))
       \<and> snd (context_executeJob E n None (s\<lparr>clock := at, pending := AList.delete t (pending s)\<rparr>))
           = (snd (context_executeJob E n None (s\<lparr>clock := at\<rparr>)))
               \<lparr>pending := AList.delete t (pending s)\<rparr>
       \<and> (overdue_recurring E n (s\<lparr>clock := at\<rparr>) \<longrightarrow> timer_fires E t at s = None)
       \<and> (\<not> overdue_recurring E n (s\<lparr>clock := at\<rparr>) \<longrightarrow>
            (\<exists>c s'. timer_fires E t at s = Some (c, s')
               \<and> clock s' = at
               \<and> jobs s' = jobs s
               \<and> live_timers n s'
                   = (case map_of (jobs s) n of
                        None \<Rightarrow> []
                      | Some j' \<Rightarrow>
                          (case getNextRunTime E j' at of
                             Inl e \<Rightarrow> []
                           | Inr None \<Rightarrow> []
                           | Inr (Some nextRun) \<Rightarrow>
                               if nextRun \<le> at then []
                               else if nextRun - at > MAX_SAFE_TIMEOUT
                                 then [(next_timer s, at + MAX_SAFE_TIMEOUT, Recheck n)]
                               else [(next_timer s, nextRun, Fire n j')]))))
       \<and> (\<forall>code s'. timers (snd (on_exit n code s')) = timers s'
                     \<and> pending (snd (on_exit n code s')) = pending s')
       \<and> (\<forall>s'. timers (snd (on_error n s')) = timers s'
                \<and> pending (snd (on_error n s')) = pending s')"
proof -
  define s0 where "s0 = s\<lparr>clock := at, pending := AList.delete t (pending s)\<rparr>"
  define s1 where "s1 = snd (context_executeJob E n None s0)"
  have ok0: "timers_ok s0"
    unfolding s0_def using ok by (rule timers_ok_delete_pending)
  have ok1: "timers_ok s1"
    unfolding s1_def using ok0 by (simp add: timers_ok_context_executeJob)
  have c1: "clock s1 = at" and j1: "jobs s1 = jobs s" and n1: "next_timer s1 = next_timer s"
    by (simp_all add: s1_def s0_def)
  have fire: "timer_fires E t at s = scheduleJob E n s1"
    unfolding s1_def s0_def by (rule timer_fires_fire [OF p r])
  have pend: "s1 = (snd (context_executeJob E n None (s\<lparr>clock := at\<rparr>)))
                     \<lparr>pending := AList.delete t (pending s)\<rparr>"
    using context_executeJob_pending
            [where s = "s\<lparr>clock := at\<rparr>" and p = "AList.delete t (pending s)" and E = E
               and n = n and c = None]
    by (simp add: s1_def s0_def)
  have od: "overdue_recurring E n s1 = overdue_recurring E n (s\<lparr>clock := at\<rparr>)"
    using c1 j1 by (intro overdue_recurring_cong) simp_all
  have none0: "live_timers n s1 = []"
    using live_timers_fired [OF ok p, of at]
    by (simp add: s1_def s0_def live_timers_context_executeJob)
  have stop: "live_timers n (stopJob n s1) = []"
    using ok1 by (rule live_timers_stopJob)
  have c2: "clock (stopJob n s1) = at" "next_timer (stopJob n s1) = next_timer s"
    "jobs (stopJob n s1) = jobs s"
    using c1 n1 j1 by simp_all
  have A: "timer_fires E t at s = None" if "overdue_recurring E n (s\<lparr>clock := at\<rparr>)"
    using that od scheduleJob_overdue [of E n s1] by (simp add: fire)
  have B: "\<exists>c s'. timer_fires E t at s = Some (c, s')
               \<and> clock s' = at
               \<and> jobs s' = jobs s
               \<and> live_timers n s'
                   = (case map_of (jobs s) n of
                        None \<Rightarrow> []
                      | Some j' \<Rightarrow>
                          (case getNextRunTime E j' at of
                             Inl e \<Rightarrow> []
                           | Inr None \<Rightarrow> []
                           | Inr (Some nextRun) \<Rightarrow>
                               if nextRun \<le> at then []
                               else if nextRun - at > MAX_SAFE_TIMEOUT
                                 then [(next_timer s, at + MAX_SAFE_TIMEOUT, Recheck n)]
                               else [(next_timer s, nextRun, Fire n j')]))"
    if "\<not> overdue_recurring E n (s\<lparr>clock := at\<rparr>)"
  proof -
    from that od have "\<not> overdue_recurring E n s1"
      by simp
    from scheduleJob_returns [OF this] obtain c s' where run: "scheduleJob E n s1 = Some (c, s')"
      by blast
    have "clock s' = at \<and> jobs s' = jobs s"
      using scheduleJob_jobs_clock [OF run] c1 j1 by simp
    moreover have "live_timers n s'
                   = (case map_of (jobs s) n of
                        None \<Rightarrow> []
                      | Some j' \<Rightarrow>
                          (case getNextRunTime E j' at of
                             Inl e \<Rightarrow> []
                           | Inr None \<Rightarrow> []
                           | Inr (Some nextRun) \<Rightarrow>
                               if nextRun \<le> at then []
                               else if nextRun - at > MAX_SAFE_TIMEOUT
                                 then [(next_timer s, at + MAX_SAFE_TIMEOUT, Recheck n)]
                               else [(next_timer s, nextRun, Fire n j')]))"
      using run
    proof (cases rule: scheduleJob_cases)
      case unregistered
      with none0 j1 show ?thesis by simp
    next
      case (throws j' e)
      with stop j1 c1 show ?thesis by simp
    next
      case (no_schedule j')
      with stop j1 c1 show ?thesis by simp
    next
      case (catch_up j' nextRun)
      have "live_timers n s' = live_timers n (stopJob n s1)"
        by (simp only: catch_up(6) live_timers_context_executeJob)
      with catch_up(1-3) stop j1 c1 show ?thesis by simp
    next
      case (intermediate j' nextRun)
      have "live_timers n s' = [(next_timer s, at + MAX_SAFE_TIMEOUT, Recheck n)]"
        unfolding intermediate(5) using stop c2
        by (subst live_timers_arm_same) (simp_all add: MAX_SAFE_TIMEOUT_def)
      with intermediate(1-3) j1 c1 show ?thesis by (simp add: MAX_SAFE_TIMEOUT_def)
    next
      case (arms j' nextRun)
      have "live_timers n s' = [(next_timer s, nextRun, Fire n j')]"
        unfolding arms(6) using stop c2 arms(3,4) c1
        by (subst live_timers_arm_same) simp_all
      with arms(1-4) j1 c1 show ?thesis by simp
    qed
    ultimately show ?thesis
      using run fire by simp
  qed
  from fire pend A B settle_leaves_timers show ?thesis
    unfolding s1_def s0_def by (intro conjI impI allI) blast+
qed

theorem recurring_job_rearms_at_firing_witness:
  "timers_ok demo_armed
   \<and> map_of (pending demo_armed) 0 = Some (1000, Fire ''report'' demo_job)
   \<and> recurring demo_job
   \<and> getNextRunTime demo_env demo_job 1000 = Inr (Some 2000)
   \<and> (\<exists>c s'. timer_fires demo_env 0 1000 demo_armed = Some (c, s')
            \<and> clock s' = 1000
            \<and> live_timers ''report'' s' = [(1, 2000, Fire ''report'' demo_job)])"
proof -
  have a: "timers_ok demo_armed"
    by (simp add: timers_ok_def demo_armed_def)
  have b: "map_of (pending demo_armed) 0 = Some (1000, Fire ''report'' demo_job)"
    by (simp add: demo_armed_def)
  have c: "recurring demo_job"
    by (simp add: recurring_def demo_job_def)
  have d: "map_of (jobs demo_armed) ''report'' = Some demo_job"
    by (simp add: demo_armed_def)
  have e: "getNextRunTime demo_env demo_job 1000 = Inr (Some 2000)"
    by (simp add: demo_next_run)
  have f: "next_timer demo_armed = 1"
    by (simp add: demo_armed_def)
  have g: "\<not> overdue_recurring demo_env ''report'' (demo_armed\<lparr>clock := 1000\<rparr>)"
    by (simp add: overdue_recurring_def d e)
  from recurring_job_rearms_at_firing [OF a b c, of demo_env 1000] g
  obtain k s' where "timer_fires demo_env 0 1000 demo_armed = Some (k, s')" "clock s' = 1000"
    "live_timers ''report'' s'
       = (case map_of (jobs demo_armed) ''report'' of
            None \<Rightarrow> []
          | Some j' \<Rightarrow>
              (case getNextRunTime demo_env j' 1000 of
                 Inl e \<Rightarrow> []
               | Inr None \<Rightarrow> []
               | Inr (Some nextRun) \<Rightarrow>
                   if nextRun \<le> 1000 then []
                   else if nextRun - 1000 > MAX_SAFE_TIMEOUT
                     then [(next_timer demo_armed, 1000 + MAX_SAFE_TIMEOUT, Recheck ''report'')]
                   else [(next_timer demo_armed, nextRun, Fire ''report'' j')]))"
    by blast
  then have "timer_fires demo_env 0 1000 demo_armed = Some (k, s') \<and> clock s' = 1000
     \<and> live_timers ''report'' s' = [(1, 2000, Fire ''report'' demo_job)]"
    by (simp add: d e f MAX_SAFE_TIMEOUT_def)
  with a b c e show ?thesis
    by blast
qed

section \<open>Duplicate names in the configuration\<close>

lemma addJobDefinition_jobs_other:
  "d_name d \<noteq> Some n \<Longrightarrow> map_of (jobs (snd (addJobDefinition E d s))) n = map_of (jobs s) n"
  by (auto simp add: addJobDefinition_def Let_def update_conv' split: option.splits)

lemma with_script_defaults_name [simp]: "d_name (with_script_defaults E d) = d_name d"
  by (simp add: with_script_defaults_def split: option.splits)

text \<open>One round of the loop: the name has been seen, or it is new.\<close>

lemma load_config_jobs_seen:
  "entry_name e \<in> set seen \<Longrightarrow>
   load_config_jobs E (e # es) seen s = (Threw (DuplicateJobName (entry_name e)), s)"
  by (simp add: Let_def entry_name_def)

lemma load_config_jobs_fresh:
  "entry_name e \<notin> set seen \<Longrightarrow>
   load_config_jobs E (e # es) seen s
     = load_config_jobs E es (entry_name e # seen)
         (snd (addJobDefinition E (with_script_defaults E (entry_def e)) s))"
  by (simp add: Let_def entry_name_def)

lemma load_config_jobs_returns:
  "distinct (map entry_name es) \<Longrightarrow> set (map entry_name es) \<inter> set seen = {} \<Longrightarrow>
   fst (load_config_jobs E es seen s) = Returned"
proof (induction es arbitrary: seen s)
  case Nil
  show ?case by simp
next
  case (Cons e es)
  from Cons.prems(2) have fresh: "entry_name e \<notin> set seen" by auto
  have "set (map entry_name es) \<inter> set (entry_name e # seen) = {}"
    using Cons.prems by auto
  moreover have "distinct (map entry_name es)"
    using Cons.prems(1) by simp
  ultimately show ?case
    unfolding load_config_jobs_fresh [OF fresh] by (intro Cons.IH)
qed

lemma load_config_jobs_duplicate:
  "distinct (map entry_name pre) \<Longrightarrow> set (map entry_name pre) \<inter> set seen = {} \<Longrightarrow>
   entry_name e \<in> set (map entry_name pre) \<union> set seen \<Longrightarrow>
   load_config_jobs E (pre @ e # post) seen s
     = (Threw (DuplicateJobName (entry_name e)), snd (load_config_jobs E pre seen s))"
proof (induction pre arbitrary: seen s)
  case Nil
  then have "entry_name e \<in> set seen" by simp
  from load_config_jobs_seen [OF this] show ?case
    by (simp del: load_config_jobs.simps(2))
next
  case (Cons a pre)
  from Cons.prems(2) have fresh: "entry_name a \<notin> set seen" by auto
  have a: "distinct (map entry_name pre)"
    using Cons.prems(1) by simp
  have b: "set (map entry_name pre) \<inter> set (entry_name a # seen) = {}"
    using Cons.prems(1,2) by auto
  have c: "entry_name e \<in> set (map entry_name pre) \<union> set (entry_name a # seen)"
    using Cons.prems(3) by auto
  have "load_config_jobs E ((a # pre) @ e # post) seen s
      = load_config_jobs E (pre @ e # post) (entry_name a # seen)
          (snd (addJobDefinition E (with_script_defaults E (entry_def a)) s))"
    using load_config_jobs_fresh [OF fresh] by (simp del: load_config_jobs.simps(2))
  also note Cons.IH [OF a b c]
  also have "load_config_jobs E pre (entry_name a # seen)
               (snd (addJobDefinition E (with_script_defaults E (entry_def a)) s))
           = load_config_jobs E (a # pre) seen s"
    by (rule load_config_jobs_fresh [OF fresh, symmetric])
  finally show ?case .
qed

lemma load_config_jobs_other:
  "Some n \<notin> set (map entry_name es) \<Longrightarrow>
   map_of (jobs (snd (load_config_jobs E es seen s))) n = map_of (jobs s) n"
proof (induction es arbitrary: seen s)
  case Nil
  show ?case by simp
next
  case (Cons e es)
  show ?case
  proof (cases "entry_name e \<in> set seen")
    case True
    from load_config_jobs_seen [OF True] show ?thesis
      by (simp del: load_config_jobs.simps(2))
  next
    case False
    have "d_name (with_script_defaults E (entry_def e)) \<noteq> Some n"
      using Cons.prems by (auto simp add: entry_name_def)
    then have "map_of (jobs (snd (addJobDefinition E (with_script_defaults E (entry_def e)) s))) n
                 = map_of (jobs s) n"
      by (rule addJobDefinition_jobs_other)
    moreover have "Some n \<notin> set (map entry_name es)"
      using Cons.prems by simp
    ultimately show ?thesis
      unfolding load_config_jobs_fresh [OF False] using Cons.IH by simp
  qed
qed

lemma loadJobs_duplicate:
  assumes "cfg_jobs E = pre @ e # post" and "distinct (map entry_name pre)"
    and "entry_name e \<in> set (map entry_name pre)"
  shows "loadJobs E s
           = (Threw (DuplicateJobName (entry_name e)), snd (load_config_jobs E pre [] s))"
proof -
  have "load_config_jobs E (pre @ e # post) [] s
     = (Threw (DuplicateJobName (entry_name e)), snd (load_config_jobs E pre [] s))"
    using assms(2,3) by (intro load_config_jobs_duplicate) simp_all
  then show ?thesis
    by (simp add: loadJobs_def assms(1))
qed

lemma loadJobs_returns_iff:
  "fst (loadJobs E s) = Returned \<longleftrightarrow> distinct (map entry_name (cfg_jobs E))"
proof
  assume r: "fst (loadJobs E s) = Returned"
  show "distinct (map entry_name (cfg_jobs E))"
  proof (rule ccontr)
    assume "\<not> distinct (map entry_name (cfg_jobs E))"
    then obtain xs y ys where d: "y \<in> set xs" "distinct xs"
      "map entry_name (cfg_jobs E) = xs @ y # ys"
      unfolding not_distinct_conv_prefix by blast
    from d(3) obtain pre e post where
      "cfg_jobs E = pre @ e # post" "map entry_name pre = xs" "entry_name e = y"
      by (auto simp add: map_eq_append_conv map_eq_Cons_conv)
    with d(1,2) loadJobs_duplicate [of E pre e post s] r show False
      by simp
  qed
next
  assume "distinct (map entry_name (cfg_jobs E))"
  then have "fst (load_config_jobs E (cfg_jobs E) [] s) = Returned"
    by (intro load_config_jobs_returns) simp_all
  then show "fst (loadJobs E s) = Returned"
    by (cases "load_config_jobs E (cfg_jobs E) [] s") (simp add: loadJobs_def)
qed

text \<open>
  Claim C9, as stated, fails. The configuration lists \<^verbatim>\<open>a\<close>, \<^verbatim>\<open>a\<close> again and
  \<^verbatim>\<open>b\<close>. The load throws at the second \<^verbatim>\<open>a\<close>; only \<^verbatim>\<open>a\<close> is registered, and
  \<^verbatim>\<open>b\<close>, which has nothing wrong, is not.
\<close>

theorem duplicate_config_name_aborts_load_counterexample:
  "cfg_jobs dup_env = [ByName ''a'', ByName ''a'', ByName ''b'']
   \<and> fst (loadJobs dup_env (initial_state 0)) = Threw (DuplicateJobName (Some ''a''))
   \<and> map fst (jobs (snd (loadJobs dup_env (initial_state 0)))) = [''a'']
   \<and> map_of (jobs (snd (loadJobs dup_env (initial_state 0)))) ''b'' = None"
  by (simp add: loadJobs_def dup_env_def demo_env_def entry_def_def name_only_def
        addJobDefinition_def initial_state_def property_key_def with_script_defaults_def Let_def)

text \<open>
  Claim C9, amended. \<^verbatim>\<open>loadJobs\<close> returns normally exactly when no name occurs twice
  in \<^verbatim>\<open>config.jobs\<close>. At the first entry whose name has occurred before it throws the
  duplicate-name error, so the earlier job is not silently overwritten; the throw ends
  the whole load: the state is the one reached after the entries before the duplicate,
  and no name other than theirs is registered by this load, neither a later entry of
  the configuration nor a job declared by a script.
\<close>

theorem duplicate_config_name_aborts_load:
  assumes "cfg_jobs E = pre @ e # post" and "distinct (map entry_name pre)"
    and "entry_name e \<in> set (map entry_name pre)"
  shows "loadJobs E s
           = (Threw (DuplicateJobName (entry_name e)), snd (load_config_jobs E pre [] s))
       \<and> fst (load_config_jobs E pre [] s) = Returned
       \<and> (\<forall>n. Some n \<notin> set (map entry_name pre) \<longrightarrow>
              map_of (jobs (snd (loadJobs E s))) n = map_of (jobs s) n)
       \<and> (fst (loadJobs E s) = Returned \<longleftrightarrow> distinct (map entry_name (cfg_jobs E)))"
proof -
  note dup = loadJobs_duplicate [OF assms, of s]
  have "fst (load_config_jobs E pre [] s) = Returned"
    using assms(2) by (intro load_config_jobs_returns) simp_all
  moreover have "map_of (jobs (snd (loadJobs E s))) n = map_of (jobs s) n"
    if "Some n \<notin> set (map entry_name pre)" for n
    using load_config_jobs_other [OF that, of E "[]" s] by (simp add: dup)
  ultimately show ?thesis
    using dup loadJobs_returns_iff [of E s] by blast
qed

theorem duplicate_config_name_aborts_load_witness:
  "cfg_jobs dup_env = [ByName ''a''] @ ByName ''a'' # [ByName ''b'']
   \<and> distinct (map entry_name [ByName ''a''])
   \<and> entry_name (ByName ''a'') \<in> set (map entry_name [ByName ''a''])
   \<and> loadJobs dup_env (initial_state 0)
        = (Threw (DuplicateJobName (entry_name (ByName ''a''))),
           snd (load_config_jobs dup_env [ByName ''a''] [] (initial_state 0)))
   \<and> map_of (jobs (snd (loadJobs dup_env (initial_state 0)))) ''b'' = None"
proof -
  have a: "cfg_jobs dup_env = [ByName ''a''] @ ByName ''a'' # [ByName ''b'']"
    by (simp add: dup_env_def)
  have b: "distinct (map entry_name [ByName ''a''])"
    by simp
  have c: "entry_name (ByName ''a'') \<in> set (map entry_name [ByName ''a''])"
    by simp
  have d: "Some ''b'' \<notin> set (map entry_name [ByName ''a''])"
    by (simp add: entry_name_def entry_def_def name_only_def)
  have e: "map_of (jobs (initial_state 0)) ''b'' = None"
    by (simp add: initial_state_def)
  note th = duplicate_config_name_aborts_load [OF a b c, of "initial_state 0"]
  from th have t1: "loadJobs dup_env (initial_state 0)
        = (Threw (DuplicateJobName (entry_name (ByName ''a''))),
           snd (load_config_jobs dup_env [ByName ''a''] [] (initial_state 0)))"
    by blast
  from th d have "map_of (jobs (snd (loadJobs dup_env (initial_state 0)))) ''b''
                    = map_of (jobs (initial_state 0)) ''b''"
    by blast
  with e have t2: "map_of (jobs (snd (loadJobs dup_env (initial_state 0)))) ''b'' = None"
    by simp
  from a b c t1 t2 show ?thesis
    by (intro conjI)
qed

end
